theory Spec2Isabelle
  imports Main
begin

section \<open>The media cache of \<^verbatim>\<open>components/media/MediaCache.ts\<close>\<close>

text \<open>
  The class \<^verbatim>\<open>MediaCacheManager\<close> keeps two JavaScript \<^verbatim>\<open>Map\<close>s: \<^verbatim>\<open>cache\<close> from a URL to a
  \<^verbatim>\<open>CachedMedia\<close>, and \<^verbatim>\<open>loadingPromises\<close> from a URL to the promise of the fetch under way.
  A JavaScript \<^verbatim>\<open>Map\<close> iterates in insertion order, and \<^verbatim>\<open>set\<close> on a key that is present keeps
  the key's position; so a \<^verbatim>\<open>Map\<close> is modelled as an association list in insertion order.
\<close>

type_synonym url = string
type_synonym promise_id = nat

record CachedMedia =
  id_media :: string
  blob :: string
  objectUrl :: string
  loaded :: bool
  timestamp :: int
  retries :: nat

text \<open>\<^verbatim>\<open>Map.prototype.get\<close>, \<^verbatim>\<open>set\<close> and \<^verbatim>\<open>delete\<close>.\<close>

definition map_get :: "('k \<times> 'v) list \<Rightarrow> 'k \<Rightarrow> 'v option" where
  "map_get m k = map_of m k"

fun map_set :: "'k \<Rightarrow> 'v \<Rightarrow> ('k \<times> 'v) list \<Rightarrow> ('k \<times> 'v) list" where
  "map_set k v [] = [(k, v)]"
| "map_set k v (e # m) = (if fst e = k then (k, v) # m else e # map_set k v m)"

definition map_delete :: "'k \<Rightarrow> ('k \<times> 'v) list \<Rightarrow> ('k \<times> 'v) list" where
  "map_delete k m = filter (\<lambda>e. fst e \<noteq> k) m"

text \<open>
  What the asynchronous body of \<^verbatim>\<open>load\<close> can throw: \<^verbatim>\<open>fetch\<close> rejects, the response is not
  \<^verbatim>\<open>ok\<close> (the body throws \<^verbatim>\<open>Error("HTTP error! status: ...")\<close>), or \<^verbatim>\<open>response.blob()\<close> rejects.
\<close>

datatype error = FetchRejected string | HttpError nat | BlobRejected string

text \<open>
  What the two awaits of the body (\<^verbatim>\<open>await fetch(url)\<close>, \<^verbatim>\<open>await response.blob()\<close>) deliver.
  The body touches no shared state between them, so they are one event of the model.
  On success the environment also supplies \<^verbatim>\<open>nanoid()\<close> and \<^verbatim>\<open>URL.createObjectURL(blob)\<close>.
\<close>

datatype fetched =
    Failure error
  | Blob string string string  \<comment> \<open>\<^verbatim>\<open>nanoid()\<close>, the blob, \<^verbatim>\<open>URL.createObjectURL(blob)\<close>\<close>

datatype settled = Pending | Fulfilled CachedMedia | Rejected error

text \<open>
  The state: the fields of the class, then what the class does to the browser.
  \<^item> \<open>promises\<close>: every promise made by the body of \<^verbatim>\<open>load\<close>, with the URL it fetches and how it
    is settled; a promise is named by its index.
  \<^item> \<open>fetchLog\<close>: the arguments of the calls of \<^verbatim>\<open>fetch\<close>, in order.
  \<^item> \<open>revoked\<close>: the arguments of the calls of \<^verbatim>\<open>URL.revokeObjectURL\<close>, in order.
  \<^item> \<open>intervals\<close>: the identifiers of the window's live intervals that run the cleanup callback;
    \<open>timerSeq\<close>: the identifier \<^verbatim>\<open>window.setInterval\<close> returns next (a positive integer).
\<close>

record MediaCacheManager =
  cache :: "(url \<times> CachedMedia) list"
  maxSize :: nat
  ttl :: int
  maxRetries :: nat
  cleanupInterval :: "nat option"
  loadingPromises :: "(url \<times> promise_id) list"
  promises :: "(url \<times> settled) list"
  fetchLog :: "url list"
  revoked :: "string list"
  intervals :: "nat list"
  timerSeq :: nat

text \<open>\<^verbatim>\<open>remove(url)\<close>: revoke the object URL of the entry and delete it, if there is one.\<close>

definition remove :: "url \<Rightarrow> MediaCacheManager \<Rightarrow> MediaCacheManager" where
  "remove u s =
     (case map_get (cache s) u of
        None \<Rightarrow> s
      | Some item \<Rightarrow> s\<lparr>revoked := revoked s @ [objectUrl item],
                       cache := map_delete u (cache s)\<rparr>)"

text \<open>
  \<^verbatim>\<open>removeOldest()\<close>: \<^verbatim>\<open>Array.from(entries()).sort((a, b) => a.timestamp - b.timestamp)[0]\<close>.
  \<^verbatim>\<open>Array.prototype.sort\<close> is stable, as is the insertion sort \<^const>\<open>sort_key\<close>.
\<close>

definition removeOldest :: "MediaCacheManager \<Rightarrow> MediaCacheManager" where
  "removeOldest s =
     (case sort_key (\<lambda>e. timestamp (snd e)) (cache s) of
        [] \<Rightarrow> s
      | oldest # _ \<Rightarrow> remove (fst oldest) s)"

text \<open>
  The callback of the cleanup interval, at time \<open>now\<close>. The loop walks the live map and removes
  only the entry it stands on, so it visits every entry of the map as it was.
\<close>

definition cleanup :: "int \<Rightarrow> MediaCacheManager \<Rightarrow> MediaCacheManager" where
  "cleanup now s =
     fold (\<lambda>e s'. if now - timestamp (snd e) > ttl s' then remove (fst e) s' else s')
       (cache s) s"

text \<open>
  \<^verbatim>\<open>startCleanupInterval()\<close>. \<^verbatim>\<open>if (this.cleanupInterval)\<close> is false for \<^verbatim>\<open>null\<close> and for 0.
\<close>

definition clearInterval :: "nat \<Rightarrow> MediaCacheManager \<Rightarrow> MediaCacheManager" where
  "clearInterval t s = s\<lparr>intervals := removeAll t (intervals s)\<rparr>"

definition startCleanupInterval :: "MediaCacheManager \<Rightarrow> MediaCacheManager" where
  "startCleanupInterval s =
     (let s1 = (case cleanupInterval s of
                  None \<Rightarrow> s
                | Some t \<Rightarrow> if t \<noteq> 0 then clearInterval t s else s)
      in s1\<lparr>cleanupInterval := Some (timerSeq s1),
             intervals := intervals s1 @ [timerSeq s1],
             timerSeq := timerSeq s1 + 1\<rparr>)"

text \<open>The field initialisers and the constructor.\<close>

definition field_initialisers :: MediaCacheManager where
  "field_initialisers =
     \<lparr>cache = [], maxSize = 100, ttl = 30 * 60 * 1000, maxRetries = 3,
       cleanupInterval = None, loadingPromises = [], promises = [], fetchLog = [],
       revoked = [], intervals = [], timerSeq = 1\<rparr>"

definition new_MediaCacheManager :: MediaCacheManager where
  "new_MediaCacheManager = startCleanupInterval field_initialisers"

text \<open>
  \<^verbatim>\<open>get(url)\<close> at time \<open>now\<close>. An \<^verbatim>\<open>async\<close> function that returns a promise hands its caller a
  promise that settles as that one does (\<open>Adopts\<close>); otherwise the caller's promise is
  fulfilled with the value returned (\<open>Returns\<close>, where \<open>None\<close> is \<^verbatim>\<open>undefined\<close>).
\<close>

datatype get_result = Adopts promise_id | Returns "CachedMedia option"

definition get :: "int \<Rightarrow> url \<Rightarrow> MediaCacheManager \<Rightarrow> get_result \<times> MediaCacheManager" where
  "get now u s =
     (case map_get (loadingPromises s) u of
        Some loadingPromise \<Rightarrow> (Adopts loadingPromise, s)
      | None \<Rightarrow>
          (case map_get (cache s) u of
             Some cached \<Rightarrow>
               if now - timestamp cached > ttl s then (Returns None, remove u s)
               else (Returns (Some cached), s)
           | None \<Rightarrow> (Returns None, s)))"

text \<open>
  \<^verbatim>\<open>load(url)\<close>, up to its \<^verbatim>\<open>return\<close>: with no promise registered for the URL, the body starts and
  runs to its first \<^verbatim>\<open>await\<close>, which calls \<^verbatim>\<open>fetch\<close>; then the promise is registered. The result is
  the promise the caller's promise adopts.
\<close>

definition load :: "url \<Rightarrow> MediaCacheManager \<Rightarrow> promise_id \<times> MediaCacheManager" where
  "load u s =
     (case map_get (loadingPromises s) u of
        Some loadingPromise \<Rightarrow> (loadingPromise, s)
      | None \<Rightarrow>
          (let loadingPromise = length (promises s)
           in (loadingPromise,
               s\<lparr>promises := promises s @ [(u, Pending)],
                 fetchLog := fetchLog s @ [u],
                 loadingPromises := map_set u loadingPromise (loadingPromises s)\<rparr>)))"

text \<open>
  The rest of the body of \<^verbatim>\<open>load\<close>, run when the awaits of promise \<open>p\<close> deliver \<open>r\<close> at time
  \<open>now\<close>: build the entry, make room, store it; the \<^verbatim>\<open>finally\<close> block deletes whatever
  \<^verbatim>\<open>loadingPromises\<close> holds for the URL. A promise settles once.
\<close>

definition is_pending :: "MediaCacheManager \<Rightarrow> promise_id \<Rightarrow> url \<Rightarrow> bool" where
  "is_pending s p u = (p < length (promises s) \<and> promises s ! p = (u, Pending))"

definition new_media :: "int \<Rightarrow> string \<Rightarrow> string \<Rightarrow> string \<Rightarrow> CachedMedia" where
  "new_media now i b ou =
     \<lparr>id_media = i, blob = b, objectUrl = ou, loaded = True, timestamp = now, retries = 0\<rparr>"

definition store :: "url \<Rightarrow> CachedMedia \<Rightarrow> MediaCacheManager \<Rightarrow> MediaCacheManager" where
  "store u media s =
     (let s1 = (if length (cache s) \<ge> maxSize s then removeOldest s else s)
      in s1\<lparr>cache := map_set u media (cache s1)\<rparr>)"

definition settle :: "int \<Rightarrow> promise_id \<Rightarrow> fetched \<Rightarrow> MediaCacheManager \<Rightarrow> MediaCacheManager" where
  "settle now p r s =
     (if p < length (promises s) \<and> snd (promises s ! p) = Pending then
        (let u = fst (promises s ! p) in
         case r of
           Failure e \<Rightarrow>
             s\<lparr>promises := (promises s)[p := (u, Rejected e)],
               loadingPromises := map_delete u (loadingPromises s)\<rparr>
         | Blob i b ou \<Rightarrow>
             (let media = new_media now i b ou; s2 = store u media s
              in s2\<lparr>promises := (promises s2)[p := (u, Fulfilled media)],
                     loadingPromises := map_delete u (loadingPromises s2)\<rparr>))
      else s)"

text \<open>\<^verbatim>\<open>clear()\<close>.\<close>

definition clear :: "MediaCacheManager \<Rightarrow> MediaCacheManager" where
  "clear s =
     (let s1 = fold (\<lambda>e. remove (fst e)) (cache s) s;
          s2 = (case cleanupInterval s1 of
                  None \<Rightarrow> s1
                | Some t \<Rightarrow>
                    if t \<noteq> 0 then (clearInterval t s1)\<lparr>cleanupInterval := None\<rparr> else s1)
      in s2\<lparr>loadingPromises := []\<rparr>)"

text \<open>
  What can happen to a manager: calls of its public methods, a promise's awaits delivering, and
  the window firing interval \<open>t\<close>. \<^verbatim>\<open>startCleanupInterval\<close> and \<^verbatim>\<open>removeOldest\<close> are private.
\<close>

datatype event =
    Get int url
  | Load url
  | Settle int promise_id fetched
  | Tick int nat
  | Remove url
  | Clear

fun step :: "event \<Rightarrow> MediaCacheManager \<Rightarrow> MediaCacheManager" where
  "step (Get now u) s = snd (get now u s)"
| "step (Load u) s = snd (load u s)"
| "step (Settle now p r) s = settle now p r s"
| "step (Tick now t) s = (if t \<in> set (intervals s) then cleanup now s else s)"
| "step (Remove u) s = remove u s"
| "step Clear s = clear s"

definition run :: "event list \<Rightarrow> MediaCacheManager \<Rightarrow> MediaCacheManager" where
  "run es s = fold step es s"


section \<open>The component of \<^verbatim>\<open>components/MediaContent.tsx\<close>\<close>

text \<open>
  The component keeps its own module-level \<^verbatim>\<open>mediaCache\<close> (a \<^verbatim>\<open>Map\<close> from URL to
  \<^verbatim>\<open>{blob, objectUrl, loaded}\<close>), React state (\<^verbatim>\<open>isLoading\<close>, \<^verbatim>\<open>error\<close>, \<^verbatim>\<open>objectUrl\<close>) and refs
  (\<^verbatim>\<open>mountedRef\<close>, \<^verbatim>\<open>retryCount\<close>). The model adds what the component does to the browser:
  \<open>fetches\<close>, the arguments of the calls of \<^verbatim>\<open>fetch\<close>; \<open>timeouts\<close>, the delays passed to
  \<^verbatim>\<open>setTimeout\<close>; and the numbers of calls of the \<^verbatim>\<open>onLoad\<close> and \<^verbatim>\<open>onError\<close> props.
\<close>

record cache_entry =
  entry_blob :: string
  entry_objectUrl :: string
  entry_loaded :: bool

record MediaContent =
  isLoading :: bool
  error :: "string option"
  objectUrl_state :: string
  mountedRef :: bool
  retryCount :: nat
  mediaCache :: "(url \<times> cache_entry) list"
  fetches :: "url list"
  timeouts :: "nat list"
  onLoad_calls :: nat
  onError_calls :: nat

text \<open>
  What one \<^verbatim>\<open>fetch\<close> with its \<^verbatim>\<open>response.blob()\<close> delivers to \<^verbatim>\<open>loadMedia\<close>: a thrown value (with
  its message when it is an \<^verbatim>\<open>Error\<close>; a response that is not \<^verbatim>\<open>ok\<close> throws an \<^verbatim>\<open>Error\<close>), or the
  blob and the object URL made for it.
\<close>

datatype attempt = Throws "string option" | Fetched string string

definition errorMessage :: "string option \<Rightarrow> string" where
  "errorMessage err = (case err of Some message \<Rightarrow> message | None \<Rightarrow> ''Failed to load media'')"

definition cached_loaded :: "MediaContent \<Rightarrow> url \<Rightarrow> cache_entry option" where
  "cached_loaded c u =
     (case map_get (mediaCache c) u of
        None \<Rightarrow> None
      | Some cached \<Rightarrow> if entry_loaded cached then Some cached else None)"

definition startsWith :: "string \<Rightarrow> string \<Rightarrow> bool" where
  "startsWith s pre = (take (length pre) s = pre)"

text \<open>
  \<^verbatim>\<open>loadMedia\<close>, with the retries it schedules. \<open>net n\<close> is what the \<open>n\<close>-th call of \<^verbatim>\<open>fetch\<close>
  (counted from 0) delivers. The component stays mounted with the same props while the request
  runs, and a timeout that was set fires: the callback of \<^verbatim>\<open>setTimeout\<close> is the recursive call.
\<close>

function loadMedia :: "url \<Rightarrow> (nat \<Rightarrow> attempt) \<Rightarrow> MediaContent \<Rightarrow> MediaContent" where
  "loadMedia u net c =
     (if u = [] \<or> \<not> mountedRef c then c
      else case cached_loaded c u of
        Some cached \<Rightarrow>
          c\<lparr>objectUrl_state := entry_objectUrl cached, isLoading := False,
            onLoad_calls := onLoad_calls c + 1\<rparr>
      | None \<Rightarrow>
          if startsWith u ''blob:'' then
            c\<lparr>objectUrl_state := u, isLoading := False, onLoad_calls := onLoad_calls c + 1\<rparr>
          else
            (case net (length (fetches c)) of
               Fetched b newObjectUrl \<Rightarrow>
                 c\<lparr>fetches := fetches c @ [u],
                   mediaCache := map_set u
                     \<lparr>entry_blob = b, entry_objectUrl = newObjectUrl, entry_loaded = True\<rparr>
                     (mediaCache c),
                   objectUrl_state := newObjectUrl, isLoading := False, error := None,
                   onLoad_calls := onLoad_calls c + 1\<rparr>
             | Throws err \<Rightarrow>
                 if retryCount c < 2 then
                   loadMedia u net
                     (c\<lparr>fetches := fetches c @ [u],
                        error := Some (errorMessage err), isLoading := False,
                        onError_calls := onError_calls c + 1,
                        retryCount := retryCount c + 1,
                        timeouts := timeouts c @ [1000 * 2 ^ (retryCount c + 1)]\<rparr>)
                 else
                   c\<lparr>fetches := fetches c @ [u],
                     error := Some (errorMessage err), isLoading := False,
                     onError_calls := onError_calls c + 1\<rparr>))"
  by pat_completeness auto
termination
  by (relation "measure (\<lambda>(u, net, c). 2 - retryCount c)") auto

text \<open>
  The component as first rendered, and the effect that runs for a URL: it resets the retry
  counter and calls \<^verbatim>\<open>loadMedia\<close>.
\<close>

definition mounted :: MediaContent where
  "mounted = \<lparr>isLoading = True, error = None, objectUrl_state = [], mountedRef = True,
              retryCount = 0, mediaCache = [], fetches = [], timeouts = [],
              onLoad_calls = 0, onError_calls = 0\<rparr>"

definition request :: "url \<Rightarrow> (nat \<Rightarrow> attempt) \<Rightarrow> MediaContent \<Rightarrow> MediaContent" where
  "request u net c = loadMedia u net (c\<lparr>retryCount := 0, isLoading := True, error := None\<rparr>)"


section \<open>Runs of the cache\<close>

text \<open>
  A fetch for \<open>k\<close> is in flight when a promise made for \<open>k\<close> is still pending. A run is
  \<open>quiet\<close> for \<open>k\<close> when it calls \<^verbatim>\<open>clear()\<close> only at moments where no fetch for \<open>k\<close> is in flight.
\<close>

definition in_flight :: "MediaCacheManager \<Rightarrow> url \<Rightarrow> bool" where
  "in_flight s k = ((k, Pending) \<in> set (promises s))"

fun quiet :: "url \<Rightarrow> event list \<Rightarrow> MediaCacheManager \<Rightarrow> bool" where
  "quiet k [] s = True"
| "quiet k (e # es) s =
     ((case e of Clear \<Rightarrow> \<not> in_flight s k | _ \<Rightarrow> True) \<and> quiet k es (step e s))"

text \<open>
  The events that neither call \<^verbatim>\<open>load\<close> nor deliver a blob to the body of an earlier \<^verbatim>\<open>load\<close>.
\<close>

fun stores_nothing :: "event \<Rightarrow> bool" where
  "stores_nothing (Load u) = False"
| "stores_nothing (Settle now p (Blob i b ou)) = False"
| "stores_nothing e = True"

text \<open>Every pending promise for \<open>k\<close> is the one registered in \<^verbatim>\<open>loadingPromises\<close>.\<close>

definition registered :: "MediaCacheManager \<Rightarrow> url \<Rightarrow> bool" where
  "registered s k = (\<forall>p. is_pending s p k \<longrightarrow> map_get (loadingPromises s) k = Some p)"

text \<open>
  The window's live cleanup intervals are exactly the one the manager remembers, if any.
\<close>

definition timer_consistent :: "MediaCacheManager \<Rightarrow> bool" where
  "timer_consistent s =
     (case cleanupInterval s of
        None \<Rightarrow> intervals s = []
      | Some t \<Rightarrow> t \<noteq> 0 \<and> intervals s = [t])"

text \<open>A network whose first \<open>n\<close> fetches fail with HTTP 503 and whose later ones succeed.\<close>

definition failing_first :: "nat \<Rightarrow> nat \<Rightarrow> attempt" where
  "failing_first n i =
     (if i < n then Throws (Some ''HTTP error! status: 503'') else Fetched ''bytes'' ''blob:ok'')"

text \<open>A full cache of capacity 2 whose two entries have the same timestamp.\<close>

definition tied_pair :: MediaCacheManager where
  "tied_pair =
     new_MediaCacheManager
       \<lparr>maxSize := 2,
        cache := [(''A'', new_media 3 ''1'' ''a'' ''blob:A''),
                  (''B'', new_media 3 ''2'' ''b'' ''blob:B'')]\<rparr>"

section \<open>Properties of the cache\<close>

subsection \<open>Maps\<close>

lemma map_get_map_set: "map_get (map_set u v m) k = (if k = u then Some v else map_get m k)"
  by (induction m) (auto simp: map_get_def)

lemma map_get_map_delete: "map_get (map_delete u m) k = (if k = u then None else map_get m k)"
  by (induction m) (auto simp: map_get_def map_delete_def)

lemma map_get_None_iff: "map_get m k = None \<longleftrightarrow> k \<notin> fst ` set m"
  by (simp add: map_get_def map_of_eq_None_iff)

lemma map_get_Some_mem: "map_get m k = Some v \<Longrightarrow> (k, v) \<in> set m"
  by (simp add: map_get_def map_of_SomeD)

lemma length_map_delete_le: "length (map_delete k m) \<le> length m"
  by (simp add: map_delete_def)

lemma length_map_delete_less: "k \<in> fst ` set m \<Longrightarrow> length (map_delete k m) < length m"
  by (induction m) (fastforce simp: map_delete_def less_Suc_eq_le)+

lemma length_map_set_le: "length (map_set k v m) \<le> Suc (length m)"
  by (induction m) auto

lemma keys_map_set:
  "map fst (map_set k v m) = (if k \<in> fst ` set m then map fst m else map fst m @ [k])"
  by (induction m) auto

lemma distinct_map_set: "distinct (map fst m) \<Longrightarrow> distinct (map fst (map_set k v m))"
  by (simp add: keys_map_set)

lemma distinct_map_delete: "distinct (map fst m) \<Longrightarrow> distinct (map fst (map_delete k m))"
  by (simp add: map_delete_def distinct_map_filter)

lemma map_delete_absent: "k \<notin> fst ` set m \<Longrightarrow> map_delete k m = m"
  unfolding map_delete_def by (rule filter_True) auto

subsection \<open>Frames\<close>

lemma remove_frame [simp]:
  "promises (remove u s) = promises s"
  "loadingPromises (remove u s) = loadingPromises s"
  "maxSize (remove u s) = maxSize s"
  "ttl (remove u s) = ttl s"
  "cleanupInterval (remove u s) = cleanupInterval s"
  "intervals (remove u s) = intervals s"
  "fetchLog (remove u s) = fetchLog s"
  by (simp_all add: remove_def split: option.split)

lemma removeOldest_frame [simp]:
  "promises (removeOldest s) = promises s"
  "loadingPromises (removeOldest s) = loadingPromises s"
  "maxSize (removeOldest s) = maxSize s"
  "ttl (removeOldest s) = ttl s"
  "cleanupInterval (removeOldest s) = cleanupInterval s"
  "intervals (removeOldest s) = intervals s"
  "fetchLog (removeOldest s) = fetchLog s"
  by (simp_all add: removeOldest_def split: list.split)

lemma store_frame [simp]:
  "promises (store u m s) = promises s"
  "loadingPromises (store u m s) = loadingPromises s"
  "maxSize (store u m s) = maxSize s"
  "ttl (store u m s) = ttl s"
  "cleanupInterval (store u m s) = cleanupInterval s"
  "intervals (store u m s) = intervals s"
  "fetchLog (store u m s) = fetchLog s"
  by (simp_all add: store_def Let_def)

lemma sweep_frame:
  "promises (fold (\<lambda>e s'. if g e s' then remove (fst e) s' else s') xs s) = promises s
   \<and> loadingPromises (fold (\<lambda>e s'. if g e s' then remove (fst e) s' else s') xs s) = loadingPromises s
   \<and> maxSize (fold (\<lambda>e s'. if g e s' then remove (fst e) s' else s') xs s) = maxSize s
   \<and> ttl (fold (\<lambda>e s'. if g e s' then remove (fst e) s' else s') xs s) = ttl s
   \<and> cleanupInterval (fold (\<lambda>e s'. if g e s' then remove (fst e) s' else s') xs s) = cleanupInterval s
   \<and> intervals (fold (\<lambda>e s'. if g e s' then remove (fst e) s' else s') xs s) = intervals s
   \<and> fetchLog (fold (\<lambda>e s'. if g e s' then remove (fst e) s' else s') xs s) = fetchLog s"
  by (induction xs arbitrary: s) simp_all

lemma cleanup_frame [simp]:
  "promises (cleanup now s) = promises s"
  "loadingPromises (cleanup now s) = loadingPromises s"
  "maxSize (cleanup now s) = maxSize s"
  "ttl (cleanup now s) = ttl s"
  "cleanupInterval (cleanup now s) = cleanupInterval s"
  "intervals (cleanup now s) = intervals s"
  "fetchLog (cleanup now s) = fetchLog s"
  by (simp_all add: cleanup_def sweep_frame)

lemma sweep_length:
  "length (cache (fold (\<lambda>e s'. if g e s' then remove (fst e) s' else s') xs s)) \<le> length (cache s)"
proof (induction xs arbitrary: s)
  case Nil
  show ?case by simp
next
  case (Cons x xs)
  have "length (cache (remove (fst x) s)) \<le> length (cache s)"
    by (simp add: remove_def length_map_delete_le split: option.split)
  with Cons[of "remove (fst x) s"] Cons[of s] show ?case
    by (auto intro: order_trans)
qed

lemma sweep_distinct:
  "distinct (map fst (cache s)) \<Longrightarrow>
   distinct (map fst (cache (fold (\<lambda>e s'. if g e s' then remove (fst e) s' else s') xs s)))"
proof (induction xs arbitrary: s)
  case Nil
  then show ?case by simp
next
  case (Cons x xs)
  have "distinct (map fst (cache (remove (fst x) s)))"
    using Cons.prems by (simp add: remove_def distinct_map_delete split: option.split)
  with Cons show ?case by simp
qed

subsection \<open>The capacity bound\<close>

lemma remove_length_le: "length (cache (remove u s)) \<le> length (cache s)"
  by (simp add: remove_def length_map_delete_le split: option.split)

lemma sort_key_head_mem:
  "sort_key f xs = y # ys \<Longrightarrow> y \<in> set xs"
  by (metis list.set_intros(1) set_sort)

lemma removeOldest_length_less:
  assumes "cache s \<noteq> []"
  shows "length (cache (removeOldest s)) < length (cache s)"
proof (cases "sort_key (\<lambda>e. timestamp (snd e)) (cache s)")
  case Nil
  then have "length (sort_key (\<lambda>e. timestamp (snd e)) (cache s)) = 0" by simp
  with assms show ?thesis by simp
next
  case (Cons oldest rest)
  then have mem: "oldest \<in> set (cache s)" by (rule sort_key_head_mem)
  then have key: "fst oldest \<in> fst ` set (cache s)" by (rule imageI)
  then obtain item where "map_get (cache s) (fst oldest) = Some item"
    using map_get_None_iff[of "cache s" "fst oldest"] by (cases "map_get (cache s) (fst oldest)") auto
  then have "cache (removeOldest s) = map_delete (fst oldest) (cache s)"
    using Cons by (simp add: removeOldest_def remove_def)
  with key show ?thesis by (simp add: length_map_delete_less)
qed

lemma store_capacity:
  assumes "0 < maxSize s" and "length (cache s) \<le> maxSize s"
  shows "length (cache (store u m s)) \<le> maxSize s"
proof (cases "length (cache s) \<ge> maxSize s")
  case True
  with assms have "cache s \<noteq> []" by auto
  then have "length (cache (removeOldest s)) < length (cache s)"
    by (rule removeOldest_length_less)
  with assms have "Suc (length (cache (removeOldest s))) \<le> maxSize s" by simp
  moreover have "length (map_set u m (cache (removeOldest s))) \<le> Suc (length (cache (removeOldest s)))"
    by (rule length_map_set_le)
  ultimately show ?thesis using True by (simp add: store_def Let_def)
next
  case False
  then have "Suc (length (cache s)) \<le> maxSize s" by simp
  moreover have "length (map_set u m (cache s)) \<le> Suc (length (cache s))"
    by (rule length_map_set_le)
  ultimately show ?thesis using False by (simp add: store_def Let_def)
qed

lemma purge_frame:
  "promises (fold (\<lambda>e. remove (fst e)) xs s) = promises s
   \<and> loadingPromises (fold (\<lambda>e. remove (fst e)) xs s) = loadingPromises s
   \<and> maxSize (fold (\<lambda>e. remove (fst e)) xs s) = maxSize s
   \<and> ttl (fold (\<lambda>e. remove (fst e)) xs s) = ttl s
   \<and> cleanupInterval (fold (\<lambda>e. remove (fst e)) xs s) = cleanupInterval s
   \<and> intervals (fold (\<lambda>e. remove (fst e)) xs s) = intervals s
   \<and> fetchLog (fold (\<lambda>e. remove (fst e)) xs s) = fetchLog s"
  using sweep_frame[of "\<lambda>_ _. True" xs s] by simp

lemma purge_length: "length (cache (fold (\<lambda>e. remove (fst e)) xs s)) \<le> length (cache s)"
  using sweep_length[of "\<lambda>_ _. True" xs s] by simp

lemma purge_distinct:
  "distinct (map fst (cache s)) \<Longrightarrow> distinct (map fst (cache (fold (\<lambda>e. remove (fst e)) xs s)))"
  using sweep_distinct[of s "\<lambda>_ _. True" xs] by simp

lemma clear_frame [simp]:
  "promises (clear s) = promises s"
  "maxSize (clear s) = maxSize s"
  "ttl (clear s) = ttl s"
  "fetchLog (clear s) = fetchLog s"
  "loadingPromises (clear s) = []"
  by (simp_all add: clear_def Let_def purge_frame clearInterval_def split: option.split)

lemma clear_cache: "cache (clear s) = cache (fold (\<lambda>e. remove (fst e)) (cache s) s)"
  by (simp add: clear_def Let_def clearInterval_def split: option.split)

lemma clear_length_le: "length (cache (clear s)) \<le> length (cache s)"
  by (simp add: clear_cache purge_length)

lemma settle_maxSize [simp]: "maxSize (settle now p r s) = maxSize s"
  by (simp add: settle_def Let_def split: fetched.split)

lemma settle_capacity:
  assumes "0 < maxSize s" and "length (cache s) \<le> maxSize s"
  shows "length (cache (settle now p r s)) \<le> maxSize s"
  using assms store_capacity[OF assms]
  by (simp add: settle_def Let_def split: fetched.split)

lemma get_maxSize [simp]: "maxSize (snd (get now u s)) = maxSize s"
  by (simp add: get_def split: option.split)

lemma get_length_le: "length (cache (snd (get now u s))) \<le> length (cache s)"
  by (simp add: get_def remove_length_le split: option.split)

lemma load_cache [simp]: "cache (snd (load u s)) = cache s" "maxSize (snd (load u s)) = maxSize s"
  by (simp_all add: load_def Let_def split: option.split)

lemma step_maxSize [simp]: "maxSize (step e s) = maxSize s"
  by (cases e) simp_all

lemma step_capacity:
  assumes "0 < maxSize s" and "length (cache s) \<le> maxSize s"
  shows "length (cache (step e s)) \<le> maxSize s"
proof (cases e)
  case (Get now u)
  with assms get_length_le[of now u s] show ?thesis by simp
next
  case (Load u)
  with assms show ?thesis by simp
next
  case (Settle now p r)
  with settle_capacity[OF assms] show ?thesis by simp
next
  case (Tick now t)
  with assms sweep_length[of "\<lambda>e s'. now - timestamp (snd e) > ttl s'" "cache s" s]
  show ?thesis by (simp add: cleanup_def)
next
  case (Remove u)
  with assms remove_length_le[of u s] show ?thesis by simp
next
  case Clear
  with assms clear_length_le[of s] show ?thesis by simp
qed

lemma run_maxSize [simp]: "maxSize (run es s) = maxSize s"
  unfolding run_def by (induction es arbitrary: s) simp_all

lemma run_capacity:
  "0 < maxSize s \<Longrightarrow> length (cache s) \<le> maxSize s \<Longrightarrow> length (cache (run es s)) \<le> maxSize s"
  unfolding run_def
proof (induction es arbitrary: s)
  case Nil
  then show ?case by simp
next
  case (Cons e es)
  from Cons.prems have "length (cache (step e s)) \<le> maxSize (step e s)"
    by (simp add: step_capacity)
  with Cons.IH[of "step e s"] Cons.prems show ?case by simp
qed

subsection \<open>Keys stay distinct\<close>

lemma remove_distinct:
  "distinct (map fst (cache s)) \<Longrightarrow> distinct (map fst (cache (remove u s)))"
  by (simp add: remove_def distinct_map_delete split: option.split)

lemma removeOldest_distinct:
  "distinct (map fst (cache s)) \<Longrightarrow> distinct (map fst (cache (removeOldest s)))"
  by (simp add: removeOldest_def remove_distinct split: list.split)

lemma store_distinct:
  "distinct (map fst (cache s)) \<Longrightarrow> distinct (map fst (cache (store u m s)))"
  by (simp add: store_def Let_def removeOldest_distinct distinct_map_set)

lemma step_distinct:
  assumes "distinct (map fst (cache s))"
  shows "distinct (map fst (cache (step e s)))"
proof (cases e)
  case (Get now u)
  with assms show ?thesis by (simp add: get_def remove_distinct split: option.split)
next
  case (Load u)
  with assms show ?thesis by simp
next
  case (Settle now p r)
  with assms store_distinct[OF assms] show ?thesis
    by (simp add: settle_def Let_def split: fetched.split)
next
  case (Tick now t)
  with sweep_distinct[OF assms, of "\<lambda>e s'. now - timestamp (snd e) > ttl s'" "cache s"]
    assms show ?thesis by (simp add: cleanup_def)
next
  case (Remove u)
  with assms show ?thesis by (simp add: remove_distinct)
next
  case Clear
  with purge_distinct[OF assms] show ?thesis by (simp add: clear_cache)
qed

lemma run_distinct:
  "distinct (map fst (cache s)) \<Longrightarrow> distinct (map fst (cache (run es s)))"
  unfolding run_def by (induction es arbitrary: s) (simp_all add: step_distinct)

subsection \<open>Which entry is the oldest\<close>

lemma hd_insort_key:
  "hd (insort_key f x ys) = (if ys = [] \<or> f x \<le> f (hd ys) then x else hd ys)"
  by (cases ys) auto

lemma sort_key_not_Nil: "xs \<noteq> [] \<Longrightarrow> sort_key f xs \<noteq> []"
  by (metis length_sort length_0_conv)

lemma hd_sort_key_first_min:
  fixes f :: "'a \<Rightarrow> int"
  shows "xs \<noteq> [] \<Longrightarrow>
    \<exists>i<length xs. hd (sort_key f xs) = xs ! i
       \<and> (\<forall>j<length xs. f (xs ! i) \<le> f (xs ! j))
       \<and> (\<forall>j<i. f (xs ! i) < f (xs ! j))"
proof (induction xs)
  case Nil
  then show ?case by simp
next
  case (Cons x xs)
  show ?case
  proof (cases "xs = []")
    case True
    then show ?thesis by simp
  next
    case False
    with Cons.IH obtain i where i: "i < length xs" "hd (sort_key f xs) = xs ! i"
      "\<forall>j<length xs. f (xs ! i) \<le> f (xs ! j)" "\<forall>j<i. f (xs ! i) < f (xs ! j)"
      by blast
    have ne: "sort_key f xs \<noteq> []" using False by (rule sort_key_not_Nil)
    show ?thesis
    proof (cases "f x \<le> f (xs ! i)")
      case True
      have "hd (sort_key f (x # xs)) = (x # xs) ! 0"
        using True i(2) ne by (simp add: hd_insort_key)
      moreover have "\<forall>j<length (x # xs). f ((x # xs) ! 0) \<le> f ((x # xs) ! j)"
      proof (intro allI impI)
        fix j assume "j < length (x # xs)"
        then show "f ((x # xs) ! 0) \<le> f ((x # xs) ! j)"
          using True i(3) by (cases j) (auto intro: order_trans)
      qed
      ultimately show ?thesis by (intro exI[of _ 0]) simp
    next
      case False
      have "hd (sort_key f (x # xs)) = (x # xs) ! Suc i"
        using False i(2) ne by (simp add: hd_insort_key)
      moreover have "\<forall>j<length (x # xs). f ((x # xs) ! Suc i) \<le> f ((x # xs) ! j)"
      proof (intro allI impI)
        fix j assume "j < length (x # xs)"
        then show "f ((x # xs) ! Suc i) \<le> f ((x # xs) ! j)"
          using False i(3) by (cases j) auto
      qed
      moreover have "\<forall>j<Suc i. f ((x # xs) ! Suc i) < f ((x # xs) ! j)"
      proof (intro allI impI)
        fix j assume "j < Suc i"
        then show "f ((x # xs) ! Suc i) < f ((x # xs) ! j)"
          using False i(4) by (cases j) auto
      qed
      ultimately show ?thesis using i(1) by (intro exI[of _ "Suc i"]) simp
    qed
  qed
qed

lemma map_delete_nth:
  "distinct (map fst m) \<Longrightarrow> i < length m \<Longrightarrow> map_delete (fst (m ! i)) m = take i m @ drop (Suc i) m"
proof (induction m arbitrary: i)
  case Nil
  then show ?case by simp
next
  case (Cons e m)
  show ?case
  proof (cases i)
    case 0
    with Cons.prems have "fst e \<notin> fst ` set m" by simp
    then have "map_delete (fst e) m = m" by (rule map_delete_absent)
    with 0 show ?thesis by (simp add: map_delete_def)
  next
    case (Suc i')
    with Cons.prems have "i' < length (map fst m)" by simp
    then have "map fst m ! i' \<in> set (map fst m)" by (rule nth_mem)
    moreover have "map fst m ! i' = fst (m ! i')" using Suc Cons.prems by simp
    moreover have "fst e \<notin> set (map fst m)" using Cons.prems by simp
    ultimately have "fst e \<noteq> fst (m ! i')" by metis
    moreover have "map_delete (fst (m ! i')) m = take i' m @ drop (Suc i') m"
      using Cons.IH[of i'] Cons.prems Suc by simp
    ultimately show ?thesis using Suc by (simp add: map_delete_def)
  qed
qed

lemma map_get_nth:
  "distinct (map fst m) \<Longrightarrow> i < length m \<Longrightarrow> map_get m (fst (m ! i)) = Some (snd (m ! i))"
  by (simp add: map_get_def)

lemma removeOldest_first_min:
  assumes "distinct (map fst (cache s))" and "cache s \<noteq> []"
  shows "\<exists>i<length (cache s).
           (\<forall>j<length (cache s). timestamp (snd (cache s ! i)) \<le> timestamp (snd (cache s ! j)))
         \<and> (\<forall>j<i. timestamp (snd (cache s ! i)) < timestamp (snd (cache s ! j)))
         \<and> removeOldest s = s\<lparr>revoked := revoked s @ [objectUrl (snd (cache s ! i))],
                               cache := take i (cache s) @ drop (Suc i) (cache s)\<rparr>"
proof -
  let ?f = "\<lambda>e. timestamp (snd e)"
  from hd_sort_key_first_min[OF assms(2), of ?f]
  obtain i where i: "i < length (cache s)" "hd (sort_key ?f (cache s)) = cache s ! i"
    "\<forall>j<length (cache s). ?f (cache s ! i) \<le> ?f (cache s ! j)"
    "\<forall>j<i. ?f (cache s ! i) < ?f (cache s ! j)"
    by blast
  have "sort_key ?f (cache s) \<noteq> []" using assms(2) by (rule sort_key_not_Nil)
  then obtain rest where "sort_key ?f (cache s) = (cache s ! i) # rest"
    using i(2) by (cases "sort_key ?f (cache s)") auto
  then have "removeOldest s = remove (fst (cache s ! i)) s"
    by (simp add: removeOldest_def)
  also have "\<dots> = s\<lparr>revoked := revoked s @ [objectUrl (snd (cache s ! i))],
                     cache := take i (cache s) @ drop (Suc i) (cache s)\<rparr>"
    using map_get_nth[OF assms(1) i(1)] map_delete_nth[OF assms(1) i(1)]
    by (simp add: remove_def)
  finally show ?thesis using i(1,3,4) by blast
qed

lemma new_capacity:
  "maxSize new_MediaCacheManager = 100" "cache new_MediaCacheManager = []"
  by (simp_all add: new_MediaCacheManager_def startCleanupInterval_def field_initialisers_def Let_def)

text \<open>
  C2. After any sequence of operations the cache holds at most \<open>maxSize\<close> entries (100 for the
  manager as constructed, and any positive bound in general), one per key. Storing at capacity
  first removes the entry with the smallest timestamp, the earliest in insertion order among
  equals, and revokes its object URL. With \<open>maxSize = 2\<close>, storing A, B, C with increasing
  timestamps leaves B and C, and A's object URL is revoked.
\<close>

theorem C2_capacity_bound_and_oldest_first:
  "length (cache (run es new_MediaCacheManager)) \<le> 100
   \<and> distinct (map fst (cache (run es new_MediaCacheManager)))
   \<and> (0 < maxSize s \<and> length (cache s) \<le> maxSize s \<longrightarrow>
        length (cache (run es s)) \<le> maxSize s \<and> maxSize (run es s) = maxSize s)
   \<and> (distinct (map fst (cache s)) \<and> cache s \<noteq> [] \<and> maxSize s \<le> length (cache s) \<longrightarrow>
        (\<exists>i<length (cache s).
            (\<forall>j<length (cache s). timestamp (snd (cache s ! i)) \<le> timestamp (snd (cache s ! j)))
          \<and> (\<forall>j<i. timestamp (snd (cache s ! i)) < timestamp (snd (cache s ! j)))
          \<and> cache (store u m s) = map_set u m (take i (cache s) @ drop (Suc i) (cache s))
          \<and> revoked (store u m s) = revoked s @ [objectUrl (snd (cache s ! i))]))
   \<and> cache (run [Load ''A'', Settle 1 0 (Blob ''1'' ''a'' ''blob:A''),
                  Load ''B'', Settle 2 1 (Blob ''2'' ''b'' ''blob:B''),
                  Load ''C'', Settle 3 2 (Blob ''3'' ''c'' ''blob:C'')]
             (new_MediaCacheManager\<lparr>maxSize := 2\<rparr>))
       = [(''B'', new_media 2 ''2'' ''b'' ''blob:B''), (''C'', new_media 3 ''3'' ''c'' ''blob:C'')]
   \<and> revoked (run [Load ''A'', Settle 1 0 (Blob ''1'' ''a'' ''blob:A''),
                    Load ''B'', Settle 2 1 (Blob ''2'' ''b'' ''blob:B''),
                    Load ''C'', Settle 3 2 (Blob ''3'' ''c'' ''blob:C'')]
               (new_MediaCacheManager\<lparr>maxSize := 2\<rparr>))
       = [''blob:A'']"
proof (intro conjI impI)
  show "length (cache (run es new_MediaCacheManager)) \<le> 100"
    using run_capacity[of new_MediaCacheManager es] by (simp add: new_capacity)
next
  show "distinct (map fst (cache (run es new_MediaCacheManager)))"
    using run_distinct[of new_MediaCacheManager es] by (simp add: new_capacity)
next
  assume "0 < maxSize s \<and> length (cache s) \<le> maxSize s"
  then show "length (cache (run es s)) \<le> maxSize s" by (simp add: run_capacity)
next
  show "maxSize (run es s) = maxSize s" by simp
next
  assume a: "distinct (map fst (cache s)) \<and> cache s \<noteq> [] \<and> maxSize s \<le> length (cache s)"
  then obtain i where i: "i < length (cache s)"
    "\<forall>j<length (cache s). timestamp (snd (cache s ! i)) \<le> timestamp (snd (cache s ! j))"
    "\<forall>j<i. timestamp (snd (cache s ! i)) < timestamp (snd (cache s ! j))"
    "removeOldest s = s\<lparr>revoked := revoked s @ [objectUrl (snd (cache s ! i))],
                          cache := take i (cache s) @ drop (Suc i) (cache s)\<rparr>"
    using removeOldest_first_min[of s] by blast
  have "cache (store u m s) = map_set u m (take i (cache s) @ drop (Suc i) (cache s))"
    using a i(4) by (simp add: store_def Let_def)
  moreover have "revoked (store u m s) = revoked s @ [objectUrl (snd (cache s ! i))]"
    using a i(4) by (simp add: store_def Let_def)
  ultimately show "\<exists>i<length (cache s).
            (\<forall>j<length (cache s). timestamp (snd (cache s ! i)) \<le> timestamp (snd (cache s ! j)))
          \<and> (\<forall>j<i. timestamp (snd (cache s ! i)) < timestamp (snd (cache s ! j)))
          \<and> cache (store u m s) = map_set u m (take i (cache s) @ drop (Suc i) (cache s))
          \<and> revoked (store u m s) = revoked s @ [objectUrl (snd (cache s ! i))]"
    using i(1,2,3) by blast
next
  show "cache (run [Load ''A'', Settle 1 0 (Blob ''1'' ''a'' ''blob:A''),
                  Load ''B'', Settle 2 1 (Blob ''2'' ''b'' ''blob:B''),
                  Load ''C'', Settle 3 2 (Blob ''3'' ''c'' ''blob:C'')]
             (new_MediaCacheManager\<lparr>maxSize := 2\<rparr>))
       = [(''B'', new_media 2 ''2'' ''b'' ''blob:B''), (''C'', new_media 3 ''3'' ''c'' ''blob:C'')]"
    by code_simp
next
  show "revoked (run [Load ''A'', Settle 1 0 (Blob ''1'' ''a'' ''blob:A''),
                    Load ''B'', Settle 2 1 (Blob ''2'' ''b'' ''blob:B''),
                    Load ''C'', Settle 3 2 (Blob ''3'' ''c'' ''blob:C'')]
               (new_MediaCacheManager\<lparr>maxSize := 2\<rparr>))
       = [''blob:A'']"
    by code_simp
qed


theorem C2_capacity_bound_and_oldest_first_witness:
  "(0 < maxSize tied_pair \<and> length (cache tied_pair) \<le> maxSize tied_pair)
   \<and> (distinct (map fst (cache tied_pair)) \<and> cache tied_pair \<noteq> []
        \<and> maxSize tied_pair \<le> length (cache tied_pair))
   \<and> length (cache (run [Load ''C'', Settle 4 0 (Blob ''3'' ''c'' ''blob:C'')] tied_pair))
        \<le> maxSize tied_pair
   \<and> cache (store ''C'' (new_media 4 ''3'' ''c'' ''blob:C'') tied_pair)
       = [(''B'', new_media 3 ''2'' ''b'' ''blob:B''), (''C'', new_media 4 ''3'' ''c'' ''blob:C'')]
   \<and> revoked (store ''C'' (new_media 4 ''3'' ''c'' ''blob:C'') tied_pair) = [''blob:A'']"
proof -
  have h1: "0 < maxSize tied_pair \<and> length (cache tied_pair) \<le> maxSize tied_pair"
    by code_simp
  have h2: "distinct (map fst (cache tied_pair)) \<and> cache tied_pair \<noteq> []
        \<and> maxSize tied_pair \<le> length (cache tied_pair)"
    by code_simp
  have c: "cache (store ''C'' (new_media 4 ''3'' ''c'' ''blob:C'') tied_pair)
       = [(''B'', new_media 3 ''2'' ''b'' ''blob:B''), (''C'', new_media 4 ''3'' ''c'' ''blob:C'')]
   \<and> revoked (store ''C'' (new_media 4 ''3'' ''c'' ''blob:C'') tied_pair) = [''blob:A'']"
    by code_simp
  from C2_capacity_bound_and_oldest_first
         [of "[Load ''C'', Settle 4 0 (Blob ''3'' ''c'' ''blob:C'')]" tied_pair
             "''C''" "new_media 4 ''3'' ''c'' ''blob:C''"] h1 h2 c
  show ?thesis by blast
qed

subsection \<open>Pending promises and their registration\<close>

lemma is_pending_cong: "promises s' = promises s \<Longrightarrow> is_pending s' p k = is_pending s p k"
  by (simp add: is_pending_def)

lemma is_pending_in_flight: "is_pending s p k \<Longrightarrow> in_flight s k"
  by (auto simp: is_pending_def in_flight_def dest: nth_mem)

lemma load_registered_eq:
  "map_get (loadingPromises s) u = Some p \<Longrightarrow> load u s = (p, s)"
  by (simp add: load_def)

lemma load_fresh:
  assumes "map_get (loadingPromises s) u = None"
  shows "fst (load u s) = length (promises s)"
    and "promises (snd (load u s)) = promises s @ [(u, Pending)]"
    and "loadingPromises (snd (load u s)) = map_set u (length (promises s)) (loadingPromises s)"
    and "fetchLog (snd (load u s)) = fetchLog s @ [u]"
  using assms by (simp_all add: load_def Let_def)

lemma settle_idle:
  "\<not> (p < length (promises s) \<and> snd (promises s ! p) = Pending) \<Longrightarrow> settle now p r s = s"
  unfolding settle_def by (rule if_not_P)

lemma settle_pending:
  assumes "is_pending s p u"
  shows "loadingPromises (settle now p r s) = map_delete u (loadingPromises s)"
    and "promises (settle now p r s) =
           (promises s)[p := (u, case r of Failure e \<Rightarrow> Rejected e
                                 | Blob i b ou \<Rightarrow> Fulfilled (new_media now i b ou))]"
    and "fetchLog (settle now p r s) = fetchLog s"
  using assms by (simp_all add: settle_def is_pending_def Let_def split: fetched.split)

lemma settle_failure_cache:
  "cache (settle now p (Failure e) s) = cache s" "revoked (settle now p (Failure e) s) = revoked s"
  by (simp_all add: settle_def Let_def)

lemma registered_get: "registered s k \<Longrightarrow> registered (snd (get now u s)) k"
  by (simp add: registered_def get_def is_pending_def split: option.split)

lemma registered_remove: "registered s k \<Longrightarrow> registered (remove u s) k"
  by (simp add: registered_def is_pending_def)

lemma registered_cleanup: "registered s k \<Longrightarrow> registered (cleanup now s) k"
  by (simp add: registered_def is_pending_def)

lemma registered_clear: "\<not> in_flight s k \<Longrightarrow> registered (clear s) k"
  using is_pending_in_flight[of "clear s" _ k]
  by (auto simp: registered_def in_flight_def)

lemma registered_load:
  assumes "registered s k"
  shows "registered (snd (load u s)) k"
proof (cases "map_get (loadingPromises s) u")
  case (Some p)
  with assms show ?thesis by (simp add: load_registered_eq)
next
  case None
  show ?thesis
    unfolding registered_def
  proof (intro allI impI)
    fix p assume pend: "is_pending (snd (load u s)) p k"
    show "map_get (loadingPromises (snd (load u s))) k = Some p"
    proof (cases "p < length (promises s)")
      case True
      with pend have "is_pending s p k"
        by (simp add: is_pending_def load_fresh[OF None] nth_append)
      with assms have reg: "map_get (loadingPromises s) k = Some p"
        by (simp add: registered_def)
      with None have "k \<noteq> u" by auto
      with reg show ?thesis by (simp add: load_fresh[OF None] map_get_map_set)
    next
      case False
      with pend have "p = length (promises s)" "k = u"
        by (auto simp: is_pending_def load_fresh[OF None] nth_append)
      then show ?thesis by (simp add: load_fresh[OF None] map_get_map_set)
    qed
  qed
qed

lemma registered_settle:
  assumes "registered s k"
  shows "registered (settle now p r s) k"
proof (cases "p < length (promises s) \<and> snd (promises s ! p) = Pending")
  case False
  with assms show ?thesis by (simp add: settle_idle)
next
  case True
  define u where "u = fst (promises s ! p)"
  with True have pu: "is_pending s p u"
    by (simp add: is_pending_def prod_eq_iff)
  show ?thesis
    unfolding registered_def
  proof (intro allI impI)
    fix q assume pend: "is_pending (settle now p r s) q k"
    have "q \<noteq> p"
      using pend True by (auto simp: is_pending_def settle_pending(2)[OF pu] split: fetched.splits)
    with pend have old: "is_pending s q k"
      by (simp add: is_pending_def settle_pending(2)[OF pu])
    with assms have reg: "map_get (loadingPromises s) k = Some q"
      by (simp add: registered_def)
    have "k \<noteq> u"
    proof
      assume "k = u"
      with pu assms have "map_get (loadingPromises s) k = Some p"
        by (simp add: registered_def)
      with reg \<open>q \<noteq> p\<close> show False by simp
    qed
    with reg show "map_get (loadingPromises (settle now p r s)) k = Some q"
      by (simp add: settle_pending(1)[OF pu] map_get_map_delete)
  qed
qed

lemma registered_step:
  assumes "registered s k" and "case e of Clear \<Rightarrow> \<not> in_flight s k | _ \<Rightarrow> True"
  shows "registered (step e s) k"
proof (cases e)
  case (Get now u)
  with assms show ?thesis by (simp add: registered_get)
next
  case (Load u)
  with assms show ?thesis by (simp add: registered_load)
next
  case (Settle now p r)
  with assms show ?thesis by (simp add: registered_settle)
next
  case (Tick now t)
  with assms show ?thesis by (simp add: registered_cleanup)
next
  case (Remove u)
  with assms show ?thesis by (simp add: registered_remove)
next
  case Clear
  with assms show ?thesis by (simp add: registered_clear)
qed

lemma registered_run:
  "registered s k \<Longrightarrow> quiet k es s \<Longrightarrow> registered (run es s) k"
  unfolding run_def
proof (induction es arbitrary: s)
  case Nil
  then show ?case by simp
next
  case (Cons e es)
  from Cons.prems have "registered (step e s) k" "quiet k es (step e s)"
    by (simp_all add: registered_step)
  with Cons.IH show ?case by simp
qed

lemma new_promises:
  "promises new_MediaCacheManager = []" "loadingPromises new_MediaCacheManager = []"
  by (simp_all add: new_MediaCacheManager_def startCleanupInterval_def field_initialisers_def Let_def)

lemma registered_new: "registered new_MediaCacheManager k"
  by (simp add: registered_def is_pending_def new_promises)

text \<open>
  C1, as stated, fails: \<^verbatim>\<open>clear()\<close> empties \<^verbatim>\<open>loadingPromises\<close> but the fetch it forgets goes on.
  After \<^verbatim>\<open>load(k); clear()\<close> promise 0 for \<open>k\<close> is still pending, yet \<^verbatim>\<open>load(k)\<close> calls \<^verbatim>\<open>fetch\<close> a
  second time and returns another promise, and \<^verbatim>\<open>get(k)\<close> reports a miss.
\<close>

theorem C1_counterexample:
  "is_pending (run [Load ''k'', Clear] new_MediaCacheManager) 0 ''k''
   \<and> fst (load ''k'' (run [Load ''k'', Clear] new_MediaCacheManager)) = 1
   \<and> fetchLog (snd (load ''k'' (run [Load ''k'', Clear] new_MediaCacheManager))) = [''k'', ''k'']
   \<and> is_pending (snd (load ''k'' (run [Load ''k'', Clear] new_MediaCacheManager))) 0 ''k''
   \<and> is_pending (snd (load ''k'' (run [Load ''k'', Clear] new_MediaCacheManager))) 1 ''k''
   \<and> fst (get 0 ''k'' (run [Load ''k'', Clear] new_MediaCacheManager)) = Returns None"
  by code_simp

text \<open>
  C1, amended. In a run from the constructor that calls \<^verbatim>\<open>clear()\<close> only when no fetch for \<open>k\<close>
  is in flight, while promise \<open>p\<close> for \<open>k\<close> is pending: \<^verbatim>\<open>load(k)\<close> returns \<open>p\<close> and changes
  nothing (no further \<^verbatim>\<open>fetch\<close>), \<^verbatim>\<open>get(k)\<close> adopts \<open>p\<close>, no other promise for \<open>k\<close> is pending, and
  when the fetch delivers, \<open>p\<close> settles to the one media object or the one error.
\<close>

theorem C1_coalescing_between_clears:
  assumes "quiet k es new_MediaCacheManager"
    and "s = run es new_MediaCacheManager"
    and "is_pending s p k"
  shows "load k s = (p, s)
       \<and> get now k s = (Adopts p, s)
       \<and> (\<forall>q. is_pending s q k \<longrightarrow> q = p)
       \<and> snd (promises (settle t p r s) ! p)
           = (case r of Failure e \<Rightarrow> Rejected e
                | Blob i b ou \<Rightarrow> Fulfilled (new_media t i b ou))"
proof -
  have reg: "registered s k"
    using assms(1,2) by (simp add: registered_run registered_new)
  with assms(3) have lp: "map_get (loadingPromises s) k = Some p"
    by (simp add: registered_def)
  have "load k s = (p, s)" using lp by (rule load_registered_eq)
  moreover have "get now k s = (Adopts p, s)" using lp by (simp add: get_def)
  moreover have "\<forall>q. is_pending s q k \<longrightarrow> q = p"
    using reg lp by (auto simp: registered_def)
  moreover have "snd (promises (settle t p r s) ! p)
           = (case r of Failure e \<Rightarrow> Rejected e
                | Blob i b ou \<Rightarrow> Fulfilled (new_media t i b ou))"
    using assms(3) by (simp add: settle_pending(2)[OF assms(3)] is_pending_def)
  ultimately show ?thesis by blast
qed

theorem C1_coalescing_between_clears_witness:
  "quiet ''k'' [Load ''k'', Load ''j'', Get 5 ''k'', Load ''k''] new_MediaCacheManager
   \<and> is_pending (run [Load ''k'', Load ''j'', Get 5 ''k'', Load ''k''] new_MediaCacheManager) 0 ''k''
   \<and> load ''k'' (run [Load ''k'', Load ''j'', Get 5 ''k'', Load ''k''] new_MediaCacheManager)
       = (0, run [Load ''k'', Load ''j'', Get 5 ''k'', Load ''k''] new_MediaCacheManager)
   \<and> get 6 ''k'' (run [Load ''k'', Load ''j'', Get 5 ''k'', Load ''k''] new_MediaCacheManager)
       = (Adopts 0, run [Load ''k'', Load ''j'', Get 5 ''k'', Load ''k''] new_MediaCacheManager)
   \<and> snd (promises (settle 7 0 (Failure (HttpError 503))
              (run [Load ''k'', Load ''j'', Get 5 ''k'', Load ''k''] new_MediaCacheManager)) ! 0)
       = Rejected (HttpError 503)"
proof -
  have h1: "quiet ''k'' [Load ''k'', Load ''j'', Get 5 ''k'', Load ''k''] new_MediaCacheManager"
    by code_simp
  have h2: "is_pending (run [Load ''k'', Load ''j'', Get 5 ''k'', Load ''k''] new_MediaCacheManager) 0 ''k''"
    by code_simp
  from C1_coalescing_between_clears[OF h1 refl h2, of 6 7 "Failure (HttpError 503)"] h1 h2
  show ?thesis by simp
qed

text \<open>
  C3, as stated, fails: \<^verbatim>\<open>get\<close> looks at \<^verbatim>\<open>loadingPromises\<close> first. After \<^verbatim>\<open>load(k)\<close> has stored an
  entry at time 0 and a second \<^verbatim>\<open>load(k)\<close> is under way, \<^verbatim>\<open>get(k)\<close> at time 1800001 finds the entry
  older than \<^verbatim>\<open>ttl\<close> still cached, and neither removes it nor reports a miss: it adopts promise 1,
  and nothing is revoked.
\<close>

theorem C3_counterexample:
  "map_get (cache (run [Load ''k'', Settle 0 0 (Blob ''1'' ''a'' ''blob:1''), Load ''k'']
                     new_MediaCacheManager)) ''k''
     = Some (new_media 0 ''1'' ''a'' ''blob:1'')
   \<and> 1800001 - timestamp (new_media 0 ''1'' ''a'' ''blob:1'')
       > ttl (run [Load ''k'', Settle 0 0 (Blob ''1'' ''a'' ''blob:1''), Load ''k'']
                new_MediaCacheManager)
   \<and> get 1800001 ''k'' (run [Load ''k'', Settle 0 0 (Blob ''1'' ''a'' ''blob:1''), Load ''k'']
                          new_MediaCacheManager)
     = (Adopts 1, run [Load ''k'', Settle 0 0 (Blob ''1'' ''a'' ''blob:1''), Load ''k'']
                    new_MediaCacheManager)
   \<and> revoked (run [Load ''k'', Settle 0 0 (Blob ''1'' ''a'' ''blob:1''), Load ''k'']
                new_MediaCacheManager) = []"
  by code_simp

text \<open>
  C3, amended. For a key whose cached entry is older than \<^verbatim>\<open>ttl\<close> at the time of the call,
  \<^verbatim>\<open>get\<close> never returns that entry as a hit. When no promise is registered for the key, \<^verbatim>\<open>get\<close>
  removes the entry, revokes its object URL and reports a miss, and the next \<^verbatim>\<open>load\<close> of the key
  calls \<^verbatim>\<open>fetch\<close> afresh. When a promise is registered for the key, \<^verbatim>\<open>get\<close> adopts it and leaves
  the cache as it is.
\<close>

theorem C3_expired_entry_is_never_a_hit:
  assumes "map_get (cache s) k = Some m" and "now - timestamp m > ttl s"
  shows "fst (get now k s) \<noteq> Returns (Some m)
       \<and> (map_get (loadingPromises s) k = None \<longrightarrow>
            fst (get now k s) = Returns None
          \<and> map_get (cache (snd (get now k s))) k = None
          \<and> revoked (snd (get now k s)) = revoked s @ [objectUrl m]
          \<and> fst (load k (snd (get now k s))) = length (promises s)
          \<and> fetchLog (snd (load k (snd (get now k s)))) = fetchLog s @ [k])
       \<and> (\<forall>p. map_get (loadingPromises s) k = Some p \<longrightarrow> get now k s = (Adopts p, s))"
proof (intro conjI impI allI)
  show "fst (get now k s) \<noteq> Returns (Some m)"
    using assms by (simp add: get_def split: option.split)
next
  assume none: "map_get (loadingPromises s) k = None"
  then have g: "get now k s = (Returns None, remove k s)"
    using assms by (simp add: get_def)
  have r: "remove k s = s\<lparr>revoked := revoked s @ [objectUrl m], cache := map_delete k (cache s)\<rparr>"
    using assms(1) by (simp add: remove_def)
  have l: "map_get (loadingPromises (remove k s)) k = None" using none by simp
  show "fst (get now k s) = Returns None" using g by simp
  show "map_get (cache (snd (get now k s))) k = None"
    using g r by (simp add: map_get_map_delete)
  show "revoked (snd (get now k s)) = revoked s @ [objectUrl m]" using g r by simp
  show "fst (load k (snd (get now k s))) = length (promises s)"
    using g load_fresh(1)[OF l] by simp
  show "fetchLog (snd (load k (snd (get now k s)))) = fetchLog s @ [k]"
    using g load_fresh(4)[OF l] by simp
next
  fix p assume "map_get (loadingPromises s) k = Some p"
  then show "get now k s = (Adopts p, s)" by (simp add: get_def)
qed

theorem C3_expired_entry_is_never_a_hit_witness:
  "map_get (cache (run [Load ''k'', Settle 0 0 (Blob ''1'' ''a'' ''blob:1'')]
                     new_MediaCacheManager)) ''k''
     = Some (new_media 0 ''1'' ''a'' ''blob:1'')
   \<and> 1800001 - timestamp (new_media 0 ''1'' ''a'' ''blob:1'')
       > ttl (run [Load ''k'', Settle 0 0 (Blob ''1'' ''a'' ''blob:1'')] new_MediaCacheManager)
   \<and> map_get (loadingPromises (run [Load ''k'', Settle 0 0 (Blob ''1'' ''a'' ''blob:1'')]
                     new_MediaCacheManager)) ''k'' = None
   \<and> fst (get 1800001 ''k'' (run [Load ''k'', Settle 0 0 (Blob ''1'' ''a'' ''blob:1'')]
                     new_MediaCacheManager)) = Returns None
   \<and> revoked (snd (get 1800001 ''k'' (run [Load ''k'', Settle 0 0 (Blob ''1'' ''a'' ''blob:1'')]
                     new_MediaCacheManager)))
       = revoked (run [Load ''k'', Settle 0 0 (Blob ''1'' ''a'' ''blob:1'')] new_MediaCacheManager)
         @ [objectUrl (new_media 0 ''1'' ''a'' ''blob:1'')]"
proof -
  have h1: "map_get (cache (run [Load ''k'', Settle 0 0 (Blob ''1'' ''a'' ''blob:1'')]
                     new_MediaCacheManager)) ''k''
     = Some (new_media 0 ''1'' ''a'' ''blob:1'')"
    by code_simp
  have h2: "1800001 - timestamp (new_media 0 ''1'' ''a'' ''blob:1'')
       > ttl (run [Load ''k'', Settle 0 0 (Blob ''1'' ''a'' ''blob:1'')] new_MediaCacheManager)"
    by code_simp
  have h3: "map_get (loadingPromises (run [Load ''k'', Settle 0 0 (Blob ''1'' ''a'' ''blob:1'')]
                     new_MediaCacheManager)) ''k'' = None"
    by code_simp
  from C3_expired_entry_is_never_a_hit[OF h1 h2] h1 h2 h3
  show ?thesis by blast
qed

text \<open>
  C6. The code overwrites the entry of a key that is already cached without revoking the old
  object URL: after two loads of \<open>k\<close> have stored their results one after the other, the cache
  holds the newer entry and \<^verbatim>\<open>URL.revokeObjectURL\<close> was never called.
\<close>

theorem C6_overwrite_does_not_revoke:
  "map_get (cache (run [Load ''k'', Settle 10 0 (Blob ''1'' ''a'' ''blob:old''),
                         Load ''k'', Settle 20 1 (Blob ''2'' ''b'' ''blob:new'')]
                     new_MediaCacheManager)) ''k''
     = Some (new_media 20 ''2'' ''b'' ''blob:new'')
   \<and> revoked (run [Load ''k'', Settle 10 0 (Blob ''1'' ''a'' ''blob:old''),
                    Load ''k'', Settle 20 1 (Blob ''2'' ''b'' ''blob:new'')]
                new_MediaCacheManager) = []"
  by code_simp

lemma in_flight_pending: "in_flight s k \<Longrightarrow> \<exists>q. is_pending s q k"
  by (auto simp: in_flight_def is_pending_def in_set_conv_nth)

lemma settle_pending_others:
  assumes "is_pending s p u"
  shows "is_pending (settle now p r s) q k \<longleftrightarrow> q \<noteq> p \<and> is_pending s q k"
proof (cases "q = p")
  case True
  then show ?thesis
    using assms by (auto simp: is_pending_def settle_pending(2)[OF assms] split: fetched.splits)
next
  case False
  then show ?thesis
    by (simp add: is_pending_def settle_pending(2)[OF assms])
qed

text \<open>
  C7, as stated, fails: a failed fetch leaves the cache as it was, and removes the registration
  of the key whichever promise it belonged to. When \<open>k\<close> was cached at time 1 and a second
  \<^verbatim>\<open>load(k)\<close> fails, \<^verbatim>\<open>get(k)\<close> at time 3 is still a hit. After \<^verbatim>\<open>load(k); clear(); load(k)\<close>, when
  the fetch of promise 0 fails, promise 1 for \<open>k\<close> is still pending, and no longer registered.
\<close>

theorem C7_counterexample:
  "is_pending (run [Load ''k'', Settle 1 0 (Blob ''1'' ''a'' ''blob:1''), Load ''k'']
                 new_MediaCacheManager) 1 ''k''
   \<and> fst (get 3 ''k'' (settle 2 1 (Failure (HttpError 500))
            (run [Load ''k'', Settle 1 0 (Blob ''1'' ''a'' ''blob:1''), Load ''k'']
               new_MediaCacheManager)))
       = Returns (Some (new_media 1 ''1'' ''a'' ''blob:1''))
   \<and> is_pending (run [Load ''k'', Clear, Load ''k''] new_MediaCacheManager) 0 ''k''
   \<and> is_pending (settle 2 0 (Failure (HttpError 500))
                   (run [Load ''k'', Clear, Load ''k''] new_MediaCacheManager)) 1 ''k''
   \<and> map_get (loadingPromises (settle 2 0 (Failure (HttpError 500))
                   (run [Load ''k'', Clear, Load ''k''] new_MediaCacheManager))) ''k'' = None"
  by code_simp

text \<open>
  C7, amended. When the fetch of a pending promise for \<open>k\<close> fails, the promise is rejected with
  the error, the cache is left as it was (nothing is stored, nothing revoked), no promise stays
  registered for \<open>k\<close>, and the next \<^verbatim>\<open>load(k)\<close> calls \<^verbatim>\<open>fetch\<close> again on a new pending promise.
  The key is left empty (\<^verbatim>\<open>get\<close> is a miss and no fetch for it is in flight) when it was not
  cached before and no other promise for it was pending. An entry cached before stays a hit
  while it is not older than \<^verbatim>\<open>ttl\<close>, and any other pending promise for the key stays pending.
\<close>

theorem C7_failed_fetch_stores_nothing:
  assumes "is_pending s p k" and "s' = settle now p (Failure e) s"
  shows "snd (promises s' ! p) = Rejected e
       \<and> cache s' = cache s \<and> revoked s' = revoked s
       \<and> map_get (loadingPromises s') k = None
       \<and> fst (load k s') = length (promises s')
       \<and> fetchLog (snd (load k s')) = fetchLog s @ [k]
       \<and> is_pending (snd (load k s')) (length (promises s')) k
       \<and> (map_get (cache s) k = None \<and> (\<forall>q. is_pending s q k \<longrightarrow> q = p) \<longrightarrow>
            get t k s' = (Returns None, s') \<and> \<not> in_flight s' k)
       \<and> (\<forall>m. map_get (cache s) k = Some m \<and> \<not> t - timestamp m > ttl s \<longrightarrow>
            get t k s' = (Returns (Some m), s'))
       \<and> (\<forall>q. q \<noteq> p \<and> is_pending s q k \<longrightarrow> is_pending s' q k)"
proof -
  have none: "map_get (loadingPromises s') k = None"
    using assms by (simp add: settle_pending(1)[OF assms(1)] map_get_map_delete)
  have same: "cache s' = cache s" "revoked s' = revoked s"
    using assms(2) by (simp_all add: settle_failure_cache)
  have ttl: "ttl s' = ttl s"
    using assms(2) by (simp add: settle_def Let_def)
  have others: "\<And>q. is_pending s' q k \<longleftrightarrow> q \<noteq> p \<and> is_pending s q k"
    unfolding assms(2) by (rule settle_pending_others[OF assms(1)])
  have "snd (promises s' ! p) = Rejected e"
    using assms by (simp add: settle_pending(2)[OF assms(1)] is_pending_def)
  moreover have "fst (load k s') = length (promises s')" using load_fresh(1)[OF none] .
  moreover have "fetchLog (snd (load k s')) = fetchLog s @ [k]"
    using load_fresh(4)[OF none] assms(2) by (simp add: settle_pending(3)[OF assms(1)])
  moreover have "is_pending (snd (load k s')) (length (promises s')) k"
    by (simp add: is_pending_def load_fresh(2)[OF none])
  moreover have "map_get (cache s) k = None \<and> (\<forall>q. is_pending s q k \<longrightarrow> q = p) \<longrightarrow>
            get t k s' = (Returns None, s') \<and> \<not> in_flight s' k"
  proof (intro impI conjI)
    assume a: "map_get (cache s) k = None \<and> (\<forall>q. is_pending s q k \<longrightarrow> q = p)"
    then show "get t k s' = (Returns None, s')"
      using none same by (simp add: get_def)
    show "\<not> in_flight s' k"
    proof
      assume "in_flight s' k"
      then obtain q where "is_pending s' q k" using in_flight_pending by blast
      with others have "q \<noteq> p \<and> is_pending s q k" by simp
      with a show False by blast
    qed
  qed
  moreover have "\<forall>m. map_get (cache s) k = Some m \<and> \<not> t - timestamp m > ttl s \<longrightarrow>
            get t k s' = (Returns (Some m), s')"
    using none same ttl by (simp add: get_def)
  moreover have "\<forall>q. q \<noteq> p \<and> is_pending s q k \<longrightarrow> is_pending s' q k"
    using others by simp
  ultimately show ?thesis using none same by blast
qed

theorem C7_failed_fetch_stores_nothing_witness:
  "is_pending (run [Load ''k''] new_MediaCacheManager) 0 ''k''
   \<and> snd (promises (settle 5 0 (Failure (HttpError 404)) (run [Load ''k''] new_MediaCacheManager)) ! 0)
       = Rejected (HttpError 404)
   \<and> cache (settle 5 0 (Failure (HttpError 404)) (run [Load ''k''] new_MediaCacheManager)) = []
   \<and> map_get (loadingPromises
         (settle 5 0 (Failure (HttpError 404)) (run [Load ''k''] new_MediaCacheManager))) ''k'' = None
   \<and> fetchLog (snd (load ''k''
         (settle 5 0 (Failure (HttpError 404)) (run [Load ''k''] new_MediaCacheManager))))
       = [''k'', ''k'']
   \<and> map_get (cache (run [Load ''k''] new_MediaCacheManager)) ''k'' = None
   \<and> \<not> is_pending (run [Load ''k''] new_MediaCacheManager) 1 ''k''
   \<and> fst (get 6 ''k'' (settle 5 0 (Failure (HttpError 404)) (run [Load ''k''] new_MediaCacheManager)))
       = Returns None
   \<and> \<not> in_flight (settle 5 0 (Failure (HttpError 404)) (run [Load ''k''] new_MediaCacheManager)) ''k''
   \<and> is_pending (run [Load ''k'', Settle 1 0 (Blob ''1'' ''a'' ''blob:1''), Load ''k'']
                   new_MediaCacheManager) 1 ''k''
   \<and> map_get (cache (run [Load ''k'', Settle 1 0 (Blob ''1'' ''a'' ''blob:1''), Load ''k'']
                   new_MediaCacheManager)) ''k'' = Some (new_media 1 ''1'' ''a'' ''blob:1'')
   \<and> fst (get 3 ''k'' (settle 2 1 (Failure (HttpError 404))
              (run [Load ''k'', Settle 1 0 (Blob ''1'' ''a'' ''blob:1''), Load ''k'']
                 new_MediaCacheManager)))
       = Returns (Some (new_media 1 ''1'' ''a'' ''blob:1''))
   \<and> is_pending (run [Load ''k'', Clear, Load ''k''] new_MediaCacheManager) 0 ''k''
   \<and> is_pending (run [Load ''k'', Clear, Load ''k''] new_MediaCacheManager) 1 ''k''
   \<and> is_pending (settle 2 0 (Failure (HttpError 404))
                   (run [Load ''k'', Clear, Load ''k''] new_MediaCacheManager)) 1 ''k''"
proof -
  have h: "is_pending (run [Load ''k''] new_MediaCacheManager) 0 ''k''"
    by code_simp
  have h': "is_pending (run [Load ''k'', Settle 1 0 (Blob ''1'' ''a'' ''blob:1''), Load ''k'']
                   new_MediaCacheManager) 1 ''k''"
    by code_simp
  have c: "snd (promises (settle 5 0 (Failure (HttpError 404)) (run [Load ''k''] new_MediaCacheManager)) ! 0)
       = Rejected (HttpError 404)
   \<and> cache (settle 5 0 (Failure (HttpError 404)) (run [Load ''k''] new_MediaCacheManager)) = []
   \<and> map_get (loadingPromises
         (settle 5 0 (Failure (HttpError 404)) (run [Load ''k''] new_MediaCacheManager))) ''k'' = None
   \<and> fetchLog (snd (load ''k''
         (settle 5 0 (Failure (HttpError 404)) (run [Load ''k''] new_MediaCacheManager))))
       = [''k'', ''k'']
   \<and> map_get (cache (run [Load ''k''] new_MediaCacheManager)) ''k'' = None
   \<and> \<not> is_pending (run [Load ''k''] new_MediaCacheManager) 1 ''k''
   \<and> fst (get 6 ''k'' (settle 5 0 (Failure (HttpError 404)) (run [Load ''k''] new_MediaCacheManager)))
       = Returns None
   \<and> \<not> in_flight (settle 5 0 (Failure (HttpError 404)) (run [Load ''k''] new_MediaCacheManager)) ''k''"
    by code_simp
  have c': "map_get (cache (run [Load ''k'', Settle 1 0 (Blob ''1'' ''a'' ''blob:1''), Load ''k'']
                   new_MediaCacheManager)) ''k'' = Some (new_media 1 ''1'' ''a'' ''blob:1'')
         \<and> fst (get 3 ''k'' (settle 2 1 (Failure (HttpError 404))
              (run [Load ''k'', Settle 1 0 (Blob ''1'' ''a'' ''blob:1''), Load ''k'']
                 new_MediaCacheManager)))
            = Returns (Some (new_media 1 ''1'' ''a'' ''blob:1''))"
    by code_simp
  have h'': "is_pending (run [Load ''k'', Clear, Load ''k''] new_MediaCacheManager) 0 ''k''"
    by code_simp
  have c'': "is_pending (run [Load ''k'', Clear, Load ''k''] new_MediaCacheManager) 1 ''k''
         \<and> is_pending (settle 2 0 (Failure (HttpError 404))
                   (run [Load ''k'', Clear, Load ''k''] new_MediaCacheManager)) 1 ''k''"
    by code_simp
  from C7_failed_fetch_stores_nothing[OF h refl, of 5 "HttpError 404" 6]
       C7_failed_fetch_stores_nothing[OF h' refl, of 2 "HttpError 404" 3]
       C7_failed_fetch_stores_nothing[OF h'' refl, of 2 "HttpError 404" 3]
       h h' h'' c c' c''
  show ?thesis by blast
qed

text \<open>
  C9, as stated, fails: a fetch that \<^verbatim>\<open>clear()\<close> has dropped from \<^verbatim>\<open>loadingPromises\<close> is still
  unresolved, but \<^verbatim>\<open>get\<close> does not see it and consults the cache. After \<^verbatim>\<open>load(k); clear()\<close> the
  fetch for \<open>k\<close> is in flight and \<^verbatim>\<open>get(k)\<close> reports a miss. After
  \<^verbatim>\<open>load(k); clear(); load(k)\<close>, when the first fetch delivers at time 5 the second is still in
  flight, and \<^verbatim>\<open>get(k)\<close> at time 6 returns the cached entry.
\<close>

theorem C9_counterexample:
  "in_flight (run [Load ''k'', Clear] new_MediaCacheManager) ''k''
   \<and> get 0 ''k'' (run [Load ''k'', Clear] new_MediaCacheManager)
       = (Returns None, run [Load ''k'', Clear] new_MediaCacheManager)
   \<and> in_flight (run [Load ''k'', Clear, Load ''k'', Settle 5 0 (Blob ''1'' ''a'' ''blob:1'')]
                 new_MediaCacheManager) ''k''
   \<and> fst (get 6 ''k'' (run [Load ''k'', Clear, Load ''k'', Settle 5 0 (Blob ''1'' ''a'' ''blob:1'')]
                         new_MediaCacheManager))
       = Returns (Some (new_media 5 ''1'' ''a'' ''blob:1''))"
  by code_simp

text \<open>
  C9, amended. In a run from the constructor that calls \<^verbatim>\<open>clear()\<close> only when no fetch for \<open>k\<close>
  is in flight, whenever a fetch for \<open>k\<close> is in flight, \<^verbatim>\<open>get(k)\<close> adopts its promise whatever the
  cache holds, and changes nothing; and when that fetch fails, the promise, and so the result
  of \<^verbatim>\<open>get\<close>, is rejected with the error of the fetch.
\<close>

theorem C9_get_adopts_the_in_flight_promise:
  assumes "quiet k es new_MediaCacheManager"
    and "s = run es new_MediaCacheManager"
    and "in_flight s k"
  shows "\<exists>p. is_pending s p k
           \<and> get now k s = (Adopts p, s)
           \<and> snd (promises (settle t p (Failure e) s) ! p) = Rejected e"
proof -
  from assms(3) obtain p where p: "is_pending s p k" using in_flight_pending by blast
  have "registered s k"
    using assms(1,2) by (simp add: registered_run registered_new)
  with p have "map_get (loadingPromises s) k = Some p"
    by (simp add: registered_def)
  then have "get now k s = (Adopts p, s)" by (simp add: get_def)
  moreover have "snd (promises (settle t p (Failure e) s) ! p) = Rejected e"
    using p by (simp add: settle_pending(2)[OF p] is_pending_def)
  ultimately show ?thesis using p by blast
qed

theorem C9_get_adopts_the_in_flight_promise_witness:
  "quiet ''k'' [Load ''k'', Settle 1 0 (Blob ''1'' ''a'' ''blob:1''), Clear, Load ''j'',
               Load ''k'', Settle 2 2 (Blob ''2'' ''b'' ''blob:2''), Load ''k'']
         new_MediaCacheManager
   \<and> in_flight (run [Load ''k'', Settle 1 0 (Blob ''1'' ''a'' ''blob:1''), Clear, Load ''j'',
                     Load ''k'', Settle 2 2 (Blob ''2'' ''b'' ''blob:2''), Load ''k'']
                  new_MediaCacheManager) ''k''
   \<and> map_get (cache (run [Load ''k'', Settle 1 0 (Blob ''1'' ''a'' ''blob:1''), Clear, Load ''j'',
                           Load ''k'', Settle 2 2 (Blob ''2'' ''b'' ''blob:2''), Load ''k'']
                       new_MediaCacheManager)) ''k'' = Some (new_media 2 ''2'' ''b'' ''blob:2'')
   \<and> fst (get 3 ''k'' (run [Load ''k'', Settle 1 0 (Blob ''1'' ''a'' ''blob:1''), Clear, Load ''j'',
                           Load ''k'', Settle 2 2 (Blob ''2'' ''b'' ''blob:2''), Load ''k'']
                         new_MediaCacheManager)) = Adopts 3
   \<and> snd (promises (settle 4 3 (Failure (FetchRejected ''Failed to fetch''))
            (run [Load ''k'', Settle 1 0 (Blob ''1'' ''a'' ''blob:1''), Clear, Load ''j'',
                  Load ''k'', Settle 2 2 (Blob ''2'' ''b'' ''blob:2''), Load ''k'']
               new_MediaCacheManager)) ! 3)
       = Rejected (FetchRejected ''Failed to fetch'')"
proof -
  have h1: "quiet ''k'' [Load ''k'', Settle 1 0 (Blob ''1'' ''a'' ''blob:1''), Clear, Load ''j'',
               Load ''k'', Settle 2 2 (Blob ''2'' ''b'' ''blob:2''), Load ''k'']
         new_MediaCacheManager"
    by code_simp
  have h2: "in_flight (run [Load ''k'', Settle 1 0 (Blob ''1'' ''a'' ''blob:1''), Clear, Load ''j'',
                     Load ''k'', Settle 2 2 (Blob ''2'' ''b'' ''blob:2''), Load ''k'']
                  new_MediaCacheManager) ''k''"
    by code_simp
  have c: "map_get (cache (run [Load ''k'', Settle 1 0 (Blob ''1'' ''a'' ''blob:1''), Clear, Load ''j'',
                           Load ''k'', Settle 2 2 (Blob ''2'' ''b'' ''blob:2''), Load ''k'']
                       new_MediaCacheManager)) ''k'' = Some (new_media 2 ''2'' ''b'' ''blob:2'')
   \<and> fst (get 3 ''k'' (run [Load ''k'', Settle 1 0 (Blob ''1'' ''a'' ''blob:1''), Clear, Load ''j'',
                           Load ''k'', Settle 2 2 (Blob ''2'' ''b'' ''blob:2''), Load ''k'']
                         new_MediaCacheManager)) = Adopts 3
   \<and> snd (promises (settle 4 3 (Failure (FetchRejected ''Failed to fetch''))
            (run [Load ''k'', Settle 1 0 (Blob ''1'' ''a'' ''blob:1''), Clear, Load ''j'',
                  Load ''k'', Settle 2 2 (Blob ''2'' ''b'' ''blob:2''), Load ''k'']
               new_MediaCacheManager)) ! 3)
       = Rejected (FetchRejected ''Failed to fetch'')"
    by code_simp
  from C9_get_adopts_the_in_flight_promise
         [OF h1 refl h2, of 3 4 "FetchRejected ''Failed to fetch''"] h1 h2 c
  show ?thesis by blast
qed

subsection \<open>What \<^verbatim>\<open>clear()\<close> leaves\<close>

lemma purge_all:
  "distinct (map fst xs) \<Longrightarrow> cache s = xs \<Longrightarrow>
   cache (fold (\<lambda>e. remove (fst e)) xs s) = []
   \<and> revoked (fold (\<lambda>e. remove (fst e)) xs s) = revoked s @ map (\<lambda>e. objectUrl (snd e)) xs"
proof (induction xs arbitrary: s)
  case Nil
  then show ?case by simp
next
  case (Cons x xs)
  have absent: "fst x \<notin> fst ` set xs" using Cons.prems(1) by simp
  have "map_get (cache s) (fst x) = Some (snd x)"
    using Cons.prems(2) by (simp add: map_get_def)
  then have r: "remove (fst x) s
      = s\<lparr>revoked := revoked s @ [objectUrl (snd x)], cache := map_delete (fst x) (cache s)\<rparr>"
    by (simp add: remove_def)
  have "map_delete (fst x) (cache s) = xs"
    using Cons.prems(2) map_delete_absent[OF absent] by (simp add: map_delete_def)
  with r have "cache (remove (fst x) s) = xs"
    and "revoked (remove (fst x) s) = revoked s @ [objectUrl (snd x)]"
    by simp_all
  with Cons.IH[of "remove (fst x) s"] Cons.prems(1) show ?case by simp
qed

lemma clear_revoked: "revoked (clear s) = revoked (fold (\<lambda>e. remove (fst e)) (cache s) s)"
  by (simp add: clear_def Let_def clearInterval_def split: option.split)

lemma new_distinct: "distinct (map fst (cache new_MediaCacheManager))"
  by (simp add: new_capacity)

lemma get_miss:
  "cache s = [] \<Longrightarrow> loadingPromises s = [] \<Longrightarrow> get now k s = (Returns None, s)"
  by (simp add: get_def map_get_def)

lemma gets_miss:
  "cache s = [] \<Longrightarrow> loadingPromises s = [] \<Longrightarrow> run (map (\<lambda>g. Get (fst g) (snd g)) gs) s = s"
  unfolding run_def by (induction gs) (simp_all add: get_miss)

lemma step_keeps_cleared:
  assumes "stores_nothing e" and "cache s = []" and "loadingPromises s = []"
  shows "cache (step e s) = [] \<and> loadingPromises (step e s) = [] \<and> revoked (step e s) = revoked s"
proof (cases e)
  case (Get now u)
  with assms show ?thesis by (simp add: get_miss)
next
  case (Load u)
  with assms show ?thesis by simp
next
  case (Settle now p r)
  with assms(1) obtain err where "r = Failure err" by (cases r) auto
  with Settle assms(2,3) show ?thesis
    by (simp add: settle_def Let_def map_delete_def)
next
  case (Tick now t)
  with assms show ?thesis by (simp add: cleanup_def)
next
  case (Remove u)
  with assms show ?thesis by (simp add: remove_def map_get_def)
next
  case Clear
  with assms show ?thesis
    by (simp add: clear_def Let_def clearInterval_def split: option.split)
qed

lemma run_keeps_cleared:
  "list_all stores_nothing es \<Longrightarrow> cache s = [] \<Longrightarrow> loadingPromises s = [] \<Longrightarrow>
   cache (run es s) = [] \<and> loadingPromises (run es s) = [] \<and> revoked (run es s) = revoked s"
  unfolding run_def
proof (induction es arbitrary: s)
  case Nil
  then show ?case by simp
next
  case (Cons e es)
  from Cons.prems have st: "cache (step e s) = [] \<and> loadingPromises (step e s) = []
      \<and> revoked (step e s) = revoked s"
    by (simp add: step_keeps_cleared)
  with Cons.IH[of "step e s"] Cons.prems(1) show ?case by simp
qed

lemma settle_blob_into_empty:
  assumes "is_pending s p k" and "cache s = []" and "loadingPromises s = []" and "0 < maxSize s"
  shows "cache (settle t p (Blob i b ou) s) = [(k, new_media t i b ou)]"
    and "loadingPromises (settle t p (Blob i b ou) s) = []"
    and "ttl (settle t p (Blob i b ou) s) = ttl s"
  using assms by (simp_all add: settle_def is_pending_def Let_def store_def map_delete_def)

text \<open>
  C8, as stated, fails: \<^verbatim>\<open>clear()\<close> does not cancel a fetch that is under way. After
  \<^verbatim>\<open>load(k); clear()\<close>, when the fetch delivers at time 5 its entry is stored, and \<^verbatim>\<open>get(k)\<close> at
  time 6 is a hit.
\<close>

theorem C8_counterexample:
  "fst (get 6 ''k'' (run [Load ''k'', Clear, Settle 5 0 (Blob ''1'' ''a'' ''blob:1'')]
                       new_MediaCacheManager))
     = Returns (Some (new_media 5 ''1'' ''a'' ''blob:1''))"
  by code_simp

text \<open>
  C8, amended. Right after \<^verbatim>\<open>clear()\<close>, in any state the manager can reach, the cache and
  \<^verbatim>\<open>loadingPromises\<close> are empty and the object URL of every entry that was cached has been
  revoked. Through any later events that neither call \<^verbatim>\<open>load\<close> nor deliver a blob to an earlier
  \<^verbatim>\<open>load\<close> (calls of \<^verbatim>\<open>get\<close>, \<^verbatim>\<open>remove\<close> and \<^verbatim>\<open>clear\<close>, ticks, failing fetches), both maps stay
  empty, nothing more is revoked, and every \<^verbatim>\<open>get\<close> is a miss that changes nothing. That ends
  with the next \<^verbatim>\<open>load\<close>, whose promise \<^verbatim>\<open>get\<close> then adopts, or when a fetch started before
  \<^verbatim>\<open>clear()\<close>, which is not cancelled, delivers its blob: the entry is stored and \<^verbatim>\<open>get\<close> returns
  it as a hit while it is not older than \<^verbatim>\<open>ttl\<close>.
\<close>

theorem C8_clear_empties_both_maps:
  assumes "s = run before new_MediaCacheManager"
    and "list_all stores_nothing after"
    and "s' = run after (clear s)"
  shows "cache (clear s) = [] \<and> loadingPromises (clear s) = []
       \<and> revoked (clear s) = revoked s @ map (\<lambda>e. objectUrl (snd e)) (cache s)
       \<and> cache s' = [] \<and> loadingPromises s' = [] \<and> revoked s' = revoked (clear s)
       \<and> get now k s' = (Returns None, s')
       \<and> fst (get now k (snd (load k s'))) = Adopts (length (promises s'))
       \<and> (is_pending s' p k \<and> \<not> now - t > ttl s' \<longrightarrow>
            get now k (settle t p (Blob i b ou) s')
              = (Returns (Some (new_media t i b ou)), settle t p (Blob i b ou) s'))"
proof -
  have "distinct (map fst (cache s))"
    using assms(1) by (simp add: run_distinct new_distinct)
  then have c: "cache (clear s) = []"
    "revoked (clear s) = revoked s @ map (\<lambda>e. objectUrl (snd e)) (cache s)"
    using purge_all[of "cache s" s] by (simp_all add: clear_cache clear_revoked)
  have l: "loadingPromises (clear s) = []" by simp
  from run_keeps_cleared[OF assms(2) c(1) l]
  have k: "cache s' = []" "loadingPromises s' = []" "revoked s' = revoked (clear s)"
    unfolding assms(3) by simp_all
  have m: "0 < maxSize s'"
    unfolding assms(3) assms(1) by (simp add: new_capacity)
  have none: "map_get (loadingPromises s') k = None" using k(2) by (simp add: map_get_def)
  have "fst (get now k (snd (load k s'))) = Adopts (length (promises s'))"
    by (simp add: get_def load_fresh(3)[OF none] map_get_map_set)
  moreover have "is_pending s' p k \<and> \<not> now - t > ttl s' \<longrightarrow>
            get now k (settle t p (Blob i b ou) s')
              = (Returns (Some (new_media t i b ou)), settle t p (Blob i b ou) s')"
  proof
    assume a: "is_pending s' p k \<and> \<not> now - t > ttl s'"
    then have p: "is_pending s' p k" by simp
    show "get now k (settle t p (Blob i b ou) s')
              = (Returns (Some (new_media t i b ou)), settle t p (Blob i b ou) s')"
      using a settle_blob_into_empty[OF p k(1) k(2) m, of t i b ou]
      by (simp add: get_def map_get_def new_media_def)
  qed
  ultimately show ?thesis using c l k get_miss[OF k(1) k(2)] by simp
qed

theorem C8_clear_empties_both_maps_witness:
  "list_all stores_nothing
     [Get 2 ''a'', Settle 3 1 (Failure (HttpError 500)), Tick 4 1, Remove ''a'', Clear, Get 5 ''b'']
   \<and> cache (clear (run [Load ''a'', Settle 1 0 (Blob ''1'' ''a'' ''blob:a''), Load ''b'', Load ''c'']
                   new_MediaCacheManager)) = []
   \<and> revoked (clear (run [Load ''a'', Settle 1 0 (Blob ''1'' ''a'' ''blob:a''), Load ''b'', Load ''c'']
                   new_MediaCacheManager)) = [''blob:a'']
   \<and> cache (run [Get 2 ''a'', Settle 3 1 (Failure (HttpError 500)), Tick 4 1, Remove ''a'', Clear,
                  Get 5 ''b'']
        (clear (run [Load ''a'', Settle 1 0 (Blob ''1'' ''a'' ''blob:a''), Load ''b'', Load ''c'']
                   new_MediaCacheManager))) = []
   \<and> fst (get 8 ''c''
        (run [Get 2 ''a'', Settle 3 1 (Failure (HttpError 500)), Tick 4 1, Remove ''a'', Clear,
              Get 5 ''b'']
          (clear (run [Load ''a'', Settle 1 0 (Blob ''1'' ''a'' ''blob:a''), Load ''b'', Load ''c'']
                   new_MediaCacheManager)))) = Returns None
   \<and> is_pending
        (run [Get 2 ''a'', Settle 3 1 (Failure (HttpError 500)), Tick 4 1, Remove ''a'', Clear,
              Get 5 ''b'']
          (clear (run [Load ''a'', Settle 1 0 (Blob ''1'' ''a'' ''blob:a''), Load ''b'', Load ''c'']
                   new_MediaCacheManager))) 2 ''c''
   \<and> \<not> 8 - 7 > ttl
        (run [Get 2 ''a'', Settle 3 1 (Failure (HttpError 500)), Tick 4 1, Remove ''a'', Clear,
              Get 5 ''b'']
          (clear (run [Load ''a'', Settle 1 0 (Blob ''1'' ''a'' ''blob:a''), Load ''b'', Load ''c'']
                   new_MediaCacheManager)))
   \<and> fst (get 8 ''c'' (settle 7 2 (Blob ''3'' ''c'' ''blob:c'')
        (run [Get 2 ''a'', Settle 3 1 (Failure (HttpError 500)), Tick 4 1, Remove ''a'', Clear,
              Get 5 ''b'']
          (clear (run [Load ''a'', Settle 1 0 (Blob ''1'' ''a'' ''blob:a''), Load ''b'', Load ''c'']
                   new_MediaCacheManager)))))
       = Returns (Some (new_media 7 ''3'' ''c'' ''blob:c''))"
proof -
  have h: "list_all stores_nothing
     [Get 2 ''a'', Settle 3 1 (Failure (HttpError 500)), Tick 4 1, Remove ''a'', Clear, Get 5 ''b'']"
    by code_simp
  have c: "cache (clear (run [Load ''a'', Settle 1 0 (Blob ''1'' ''a'' ''blob:a''), Load ''b'', Load ''c'']
                   new_MediaCacheManager)) = []
   \<and> revoked (clear (run [Load ''a'', Settle 1 0 (Blob ''1'' ''a'' ''blob:a''), Load ''b'', Load ''c'']
                   new_MediaCacheManager)) = [''blob:a'']
   \<and> cache (run [Get 2 ''a'', Settle 3 1 (Failure (HttpError 500)), Tick 4 1, Remove ''a'', Clear,
                  Get 5 ''b'']
        (clear (run [Load ''a'', Settle 1 0 (Blob ''1'' ''a'' ''blob:a''), Load ''b'', Load ''c'']
                   new_MediaCacheManager))) = []
   \<and> fst (get 8 ''c''
        (run [Get 2 ''a'', Settle 3 1 (Failure (HttpError 500)), Tick 4 1, Remove ''a'', Clear,
              Get 5 ''b'']
          (clear (run [Load ''a'', Settle 1 0 (Blob ''1'' ''a'' ''blob:a''), Load ''b'', Load ''c'']
                   new_MediaCacheManager)))) = Returns None
   \<and> is_pending
        (run [Get 2 ''a'', Settle 3 1 (Failure (HttpError 500)), Tick 4 1, Remove ''a'', Clear,
              Get 5 ''b'']
          (clear (run [Load ''a'', Settle 1 0 (Blob ''1'' ''a'' ''blob:a''), Load ''b'', Load ''c'']
                   new_MediaCacheManager))) 2 ''c''
   \<and> \<not> 8 - 7 > ttl
        (run [Get 2 ''a'', Settle 3 1 (Failure (HttpError 500)), Tick 4 1, Remove ''a'', Clear,
              Get 5 ''b'']
          (clear (run [Load ''a'', Settle 1 0 (Blob ''1'' ''a'' ''blob:a''), Load ''b'', Load ''c'']
                   new_MediaCacheManager)))
   \<and> fst (get 8 ''c'' (settle 7 2 (Blob ''3'' ''c'' ''blob:c'')
        (run [Get 2 ''a'', Settle 3 1 (Failure (HttpError 500)), Tick 4 1, Remove ''a'', Clear,
              Get 5 ''b'']
          (clear (run [Load ''a'', Settle 1 0 (Blob ''1'' ''a'' ''blob:a''), Load ''b'', Load ''c'']
                   new_MediaCacheManager)))))
       = Returns (Some (new_media 7 ''3'' ''c'' ''blob:c''))"
    by code_simp
  from C8_clear_empties_both_maps
         [where before = "[Load ''a'', Settle 1 0 (Blob ''1'' ''a'' ''blob:a''), Load ''b'', Load ''c'']"
            and now = 8 and k = "''c''" and p = 2 and t = 7
            and i = "''3''" and b = "''c''" and ou = "''blob:c''",
          OF refl h refl] h c
  show ?thesis by blast
qed

subsection \<open>The cleanup interval\<close>

lemma get_timers [simp]:
  "cleanupInterval (snd (get now u s)) = cleanupInterval s"
  "intervals (snd (get now u s)) = intervals s"
  by (simp_all add: get_def split: option.split)

lemma load_timers [simp]:
  "cleanupInterval (snd (load u s)) = cleanupInterval s"
  "intervals (snd (load u s)) = intervals s"
  by (simp_all add: load_def Let_def split: option.split)

lemma settle_timers [simp]:
  "cleanupInterval (settle now p r s) = cleanupInterval s"
  "intervals (settle now p r s) = intervals s"
  by (simp_all add: settle_def Let_def split: fetched.split)

lemma clear_timers:
  "cleanupInterval (clear s) = (case cleanupInterval s of
       None \<Rightarrow> None | Some t \<Rightarrow> if t \<noteq> 0 then None else Some t)"
  "intervals (clear s) = (case cleanupInterval s of
       None \<Rightarrow> intervals s | Some t \<Rightarrow> if t \<noteq> 0 then removeAll t (intervals s) else intervals s)"
  by (simp_all add: clear_def Let_def purge_frame clearInterval_def split: option.split)

lemma clear_stops:
  "timer_consistent s \<Longrightarrow> cleanupInterval (clear s) = None \<and> intervals (clear s) = []"
  by (auto simp: timer_consistent_def clear_timers split: option.splits)

lemma step_timer_consistent: "timer_consistent s \<Longrightarrow> timer_consistent (step e s)"
proof (cases e)
  case Clear
  assume "timer_consistent s"
  then have "cleanupInterval (clear s) = None \<and> intervals (clear s) = []" by (rule clear_stops)
  with Clear show ?thesis by (simp add: timer_consistent_def)
qed (simp_all add: timer_consistent_def split: option.splits)

lemma run_timer_consistent: "timer_consistent s \<Longrightarrow> timer_consistent (run es s)"
  unfolding run_def by (induction es arbitrary: s) (simp_all add: step_timer_consistent)

lemma new_timer_consistent: "timer_consistent new_MediaCacheManager"
  by (simp add: timer_consistent_def new_MediaCacheManager_def startCleanupInterval_def
      field_initialisers_def Let_def)

lemma step_stays_stopped:
  assumes "cleanupInterval s = None \<and> intervals s = []"
  shows "cleanupInterval (step e s) = None \<and> intervals (step e s) = []"
  using assms by (cases e) (simp_all add: clear_timers)

lemma run_stays_stopped:
  "cleanupInterval s = None \<and> intervals s = [] \<Longrightarrow>
   cleanupInterval (run es s) = None \<and> intervals (run es s) = []"
  unfolding run_def
proof (induction es arbitrary: s)
  case Nil
  then show ?case by simp
next
  case (Cons e es)
  from Cons.prems have "cleanupInterval (step e s) = None \<and> intervals (step e s) = []"
    by (rule step_stays_stopped)
  then show ?case using Cons.IH[of "step e s"] by simp
qed

text \<open>
  C10. The constructor starts the only cleanup interval. Once \<^verbatim>\<open>clear()\<close> has been called on a
  manager, whatever happened before and whatever happens after, the manager remembers no
  interval, the window has no live cleanup interval, and a tick of any timer leaves the manager
  (and so every entry stored since) untouched.
\<close>

theorem C10_no_sweep_after_clear:
  assumes "s = run after (clear (run before new_MediaCacheManager))"
  shows "cleanupInterval s = None \<and> intervals s = [] \<and> step (Tick now t) s = s"
proof -
  have "timer_consistent (run before new_MediaCacheManager)"
    using new_timer_consistent by (rule run_timer_consistent)
  then have "cleanupInterval (clear (run before new_MediaCacheManager)) = None
           \<and> intervals (clear (run before new_MediaCacheManager)) = []"
    by (rule clear_stops)
  then have "cleanupInterval s = None \<and> intervals s = []"
    unfolding assms by (rule run_stays_stopped)
  then show ?thesis by simp
qed

theorem C10_no_sweep_after_clear_witness:
  "intervals (run [Load ''a''] new_MediaCacheManager) = [1]
   \<and> intervals (run [Load ''b'', Settle 5 1 (Blob ''1'' ''b'' ''blob:b'')]
        (clear (run [Load ''a''] new_MediaCacheManager))) = []
   \<and> step (Tick 9000000 1)
        (run [Load ''b'', Settle 5 1 (Blob ''1'' ''b'' ''blob:b'')]
           (clear (run [Load ''a''] new_MediaCacheManager)))
       = run [Load ''b'', Settle 5 1 (Blob ''1'' ''b'' ''blob:b'')]
           (clear (run [Load ''a''] new_MediaCacheManager))
   \<and> map fst (cache (run [Load ''b'', Settle 5 1 (Blob ''1'' ''b'' ''blob:b'')]
           (clear (run [Load ''a''] new_MediaCacheManager)))) = [''b'']"
proof -
  have c: "intervals (run [Load ''a''] new_MediaCacheManager) = [1]
      \<and> map fst (cache (run [Load ''b'', Settle 5 1 (Blob ''1'' ''b'' ''blob:b'')]
           (clear (run [Load ''a''] new_MediaCacheManager)))) = [''b'']"
    by code_simp
  from C10_no_sweep_after_clear
         [OF refl, of "[Load ''b'', Settle 5 1 (Blob ''1'' ''b'' ''blob:b'')]" "[Load ''a'']"
            9000000 1] c
  show ?thesis by simp
qed

section \<open>Properties of the component\<close>

declare loadMedia.simps [simp del]

lemma cached_loaded_frame [simp]:
  "cached_loaded (c\<lparr>fetches := a\<rparr>) u = cached_loaded c u"
  "cached_loaded (c\<lparr>error := b\<rparr>) u = cached_loaded c u"
  "cached_loaded (c\<lparr>isLoading := d\<rparr>) u = cached_loaded c u"
  "cached_loaded (c\<lparr>onError_calls := e\<rparr>) u = cached_loaded c u"
  "cached_loaded (c\<lparr>retryCount := f\<rparr>) u = cached_loaded c u"
  "cached_loaded (c\<lparr>timeouts := g\<rparr>) u = cached_loaded c u"
  by (simp_all add: cached_loaded_def)

lemma loadMedia_retry:
  assumes "u \<noteq> []" "mountedRef c" "cached_loaded c u = None" "\<not> startsWith u ''blob:''"
    and "net (length (fetches c)) = Throws err" and "retryCount c < 2"
  shows "loadMedia u net c =
         loadMedia u net
           (c\<lparr>fetches := fetches c @ [u],
              error := Some (errorMessage err), isLoading := False,
              onError_calls := onError_calls c + 1,
              retryCount := retryCount c + 1,
              timeouts := timeouts c @ [1000 * 2 ^ (retryCount c + 1)]\<rparr>)"
  using assms by (simp add: loadMedia.simps[of u net c])


lemma loadMedia_no_retry:
  assumes "\<not> (u \<noteq> [] \<and> mountedRef c \<and> cached_loaded c u = None \<and> \<not> startsWith u ''blob:''
             \<and> (\<exists>err. net (length (fetches c)) = Throws err) \<and> retryCount c < 2)"
  shows "timeouts (loadMedia u net c) = timeouts c"
  using assms
  by (auto simp: loadMedia.simps[of u net c] split: option.split attempt.split)

lemma loadMedia_timeouts:
  "\<exists>k. retryCount c + k \<le> max 2 (retryCount c)
     \<and> timeouts (loadMedia u net c)
         = timeouts c @ map (\<lambda>i. 1000 * 2 ^ i) [retryCount c + 1 ..< retryCount c + 1 + k]"
proof (induction u net c rule: loadMedia.induct)
  case (1 u net c)
  show ?case
  proof (cases "u \<noteq> [] \<and> mountedRef c \<and> cached_loaded c u = None \<and> \<not> startsWith u ''blob:''
             \<and> (\<exists>err. net (length (fetches c)) = Throws err) \<and> retryCount c < 2")
    case False
    then have "timeouts (loadMedia u net c) = timeouts c" by (rule loadMedia_no_retry)
    then show ?thesis by (intro exI[of _ 0]) simp
  next
    case True
    then obtain err where err: "net (length (fetches c)) = Throws err" by blast
    let ?c = "c\<lparr>fetches := fetches c @ [u],
              error := Some (errorMessage err), isLoading := False,
              onError_calls := onError_calls c + 1,
              retryCount := retryCount c + 1,
              timeouts := timeouts c @ [1000 * 2 ^ (retryCount c + 1)]\<rparr>"
    have eq: "loadMedia u net c = loadMedia u net ?c"
      using True err by (intro loadMedia_retry) simp_all
    from "1.IH"[of err] True err
    obtain k where k: "retryCount ?c + k \<le> max 2 (retryCount ?c)"
      "timeouts (loadMedia u net ?c)
         = timeouts ?c @ map (\<lambda>i. 1000 * 2 ^ i) [retryCount ?c + 1 ..< retryCount ?c + 1 + k]"
      by auto
    have "[retryCount c + 1 ..< retryCount c + 1 + Suc k]
          = (retryCount c + 1) # [retryCount c + 2 ..< retryCount c + 2 + k]"
      by (simp add: upt_conv_Cons)
    then have "timeouts (loadMedia u net c)
         = timeouts c @ map (\<lambda>i. 1000 * 2 ^ i) [retryCount c + 1 ..< retryCount c + 1 + Suc k]"
      using k(2) eq by simp
    moreover have "retryCount c + Suc k \<le> max 2 (retryCount c)" using k(1) True by simp
    ultimately show ?thesis by blast
  qed
qed





text \<open>
  C5, as stated, fails: the counter is incremented before the delay is computed, so the first
  retry waits \<open>1000 * 2 ^ 1 = 2000\<close> ms, not \<open>min (1000 * 2 ^ (1 - 1)) 8000 = 1000\<close> ms.
\<close>

theorem C5_counterexample:
  "timeouts (request ''http://x/a.png'' (failing_first 3) mounted) = [2000, 4000]
   \<and> timeouts (request ''http://x/a.png'' (failing_first 3) mounted) ! 0
       \<noteq> min (1000 * 2 ^ (1 - 1)) 8000"
  by code_simp

text \<open>
  C5, amended. A request makes at most two retries, and the delay before retry \<open>n\<close> (for
  \<open>n = 1, 2\<close>) is \<open>min (1000 * 2 ^ n) 8000 = 1000 * 2 ^ n\<close> ms: the first retry waits 2000 ms,
  the second 4000 ms, and no retry waits more than 8000 ms.
\<close>

theorem C5_retry_delays:
  assumes "timeouts c = []" and "1 \<le> n" and "n \<le> length (timeouts (request u net c))"
  shows "n \<le> 2
       \<and> timeouts (request u net c) ! (n - 1) = min (1000 * 2 ^ n) 8000
       \<and> timeouts (request u net c) ! (n - 1) = 1000 * 2 ^ n
       \<and> timeouts (request u net c) ! (n - 1) \<le> 8000"
proof -
  let ?c = "c\<lparr>retryCount := 0, isLoading := True, error := None\<rparr>"
  from loadMedia_timeouts[of ?c u net] assms(1)
  obtain k where k: "k \<le> 2" "timeouts (request u net c) = map (\<lambda>i. 1000 * 2 ^ i) [1 ..< 1 + k]"
    by (auto simp: request_def)
  have "length (timeouts (request u net c)) = k"
    unfolding k(2) by (simp del: upt_Suc)
  with assms(3) have nk: "n \<le> k" by simp
  with k(1) have n2: "n \<le> 2" by simp
  have "n - 1 < length [1 ..< 1 + k]" using nk assms(2) by (simp del: upt_Suc)
  then have "map (\<lambda>i. 1000 * 2 ^ i) [1 ..< 1 + k] ! (n - 1) = 1000 * 2 ^ ([1 ..< 1 + k] ! (n - 1))"
    by (rule nth_map)
  also have "[1 ..< 1 + k] ! (n - 1) = n"
    using nk assms(2) by (simp del: upt_Suc)
  finally have nth: "timeouts (request u net c) ! (n - 1) = 1000 * 2 ^ n"
    unfolding k(2) .
  have "(2::nat) ^ n \<le> 2 ^ 2" using n2 by (intro power_increasing) simp_all
  then have le: "(1000::nat) * 2 ^ n \<le> 8000" by simp
  show ?thesis using n2 nth le by simp
qed

theorem C5_retry_delays_witness:
  "timeouts mounted = [] \<and> (1::nat) \<le> 2
   \<and> 2 \<le> length (timeouts (request ''http://x/a.png'' (failing_first 3) mounted))
   \<and> timeouts (request ''http://x/a.png'' (failing_first 3) mounted) ! (2 - 1) = min (1000 * 2 ^ 2) 8000
   \<and> timeouts (request ''http://x/a.png'' (failing_first 3) mounted) ! (2 - 1) = 4000"
proof -
  have h1: "timeouts mounted = []" by code_simp
  have h2: "(1::nat) \<le> 2" by simp
  have h3: "2 \<le> length (timeouts (request ''http://x/a.png'' (failing_first 3) mounted))"
    by code_simp
  from C5_retry_delays[OF h1 h2 h3] h1 h3
  show ?thesis by simp
qed

end
